theory Spec2Isabelle
  imports Main "HOL-Library.Word" "HOL-Library.Log_Nat" "HOL-Library.Multiset"
begin

unbundle bit_operations_syntax

section \<open>Python values\<close>

text \<open>
  A Python \<open>str\<close> is a sequence of Unicode code points, so a string is a list of natural
  numbers (the byte-order mark U+FEFF does not fit into a \<open>char\<close>).  \<open>py_str\<close> embeds
  an ASCII literal.
\<close>

type_synonym pystr = "nat list"

definition py_str :: "string \<Rightarrow> pystr" where
  "py_str s = map of_char s"

type_synonym byte = "8 word"

type_synonym word32 = "32 word"

datatype py_error = ValueError string | UnicodeEncodeError | OverflowError

subsection \<open>\<open>str.encode("utf-8")\<close>\<close>

text \<open>
  The strict UTF-8 codec: a surrogate code point (U+D800 to U+DFFF) raises
  \<open>UnicodeEncodeError\<close>.  A number from 0x110000 on is no code point of a \<open>str\<close>; the
  model rejects it in the same way.
\<close>

definition utf8_encode_char :: "nat \<Rightarrow> py_error + byte list" where
  "utf8_encode_char c =
     (if c < 0x80 then Inr [of_nat c]
      else if c < 0x800 then Inr [of_nat (0xC0 + c div 64), of_nat (0x80 + c mod 64)]
      else if 0xD800 \<le> c \<and> c < 0xE000 then Inl UnicodeEncodeError
      else if c < 0x10000 then
        Inr [of_nat (0xE0 + c div 4096), of_nat (0x80 + c div 64 mod 64),
             of_nat (0x80 + c mod 64)]
      else if c < 0x110000 then
        Inr [of_nat (0xF0 + c div 262144), of_nat (0x80 + c div 4096 mod 64),
             of_nat (0x80 + c div 64 mod 64), of_nat (0x80 + c mod 64)]
      else Inl UnicodeEncodeError)"

fun utf8_encode :: "pystr \<Rightarrow> py_error + byte list" where
  "utf8_encode [] = Inr []"
| "utf8_encode (c # cs) =
     (case utf8_encode_char c of
        Inl e \<Rightarrow> Inl e
      | Inr bs \<Rightarrow> (case utf8_encode cs of Inl e \<Rightarrow> Inl e | Inr rest \<Rightarrow> Inr (bs @ rest)))"

definition encodable :: "pystr \<Rightarrow> bool" where
  "encodable s = list_all (\<lambda>c. c < 0x110000 \<and> \<not> (0xD800 \<le> c \<and> c < 0xE000)) s"

subsection \<open>\<open>hashlib.sha256\<close>\<close>

text \<open>SHA-256 as FIPS 180-4 defines it, on 32-bit words.\<close>

definition sha256_k :: "word32 list" where
  "sha256_k = [
     0x428A2F98, 0x71374491, 0xB5C0FBCF, 0xE9B5DBA5,
     0x3956C25B, 0x59F111F1, 0x923F82A4, 0xAB1C5ED5,
     0xD807AA98, 0x12835B01, 0x243185BE, 0x550C7DC3,
     0x72BE5D74, 0x80DEB1FE, 0x9BDC06A7, 0xC19BF174,
     0xE49B69C1, 0xEFBE4786, 0x0FC19DC6, 0x240CA1CC,
     0x2DE92C6F, 0x4A7484AA, 0x5CB0A9DC, 0x76F988DA,
     0x983E5152, 0xA831C66D, 0xB00327C8, 0xBF597FC7,
     0xC6E00BF3, 0xD5A79147, 0x06CA6351, 0x14292967,
     0x27B70A85, 0x2E1B2138, 0x4D2C6DFC, 0x53380D13,
     0x650A7354, 0x766A0ABB, 0x81C2C92E, 0x92722C85,
     0xA2BFE8A1, 0xA81A664B, 0xC24B8B70, 0xC76C51A3,
     0xD192E819, 0xD6990624, 0xF40E3585, 0x106AA070,
     0x19A4C116, 0x1E376C08, 0x2748774C, 0x34B0BCB5,
     0x391C0CB3, 0x4ED8AA4A, 0x5B9CCA4F, 0x682E6FF3,
     0x748F82EE, 0x78A5636F, 0x84C87814, 0x8CC70208,
     0x90BEFFFA, 0xA4506CEB, 0xBEF9A3F7, 0xC67178F2]"

definition sha256_h0 :: "word32 list" where
  "sha256_h0 = [
     0x6A09E667, 0xBB67AE85, 0x3C6EF372, 0xA54FF53A,
     0x510E527F, 0x9B05688C, 0x1F83D9AB, 0x5BE0CD19]"

definition rotr :: "nat \<Rightarrow> word32 \<Rightarrow> word32" where
  "rotr n w = (drop_bit n w) OR (push_bit (32 - n) w)"

definition ch :: "word32 \<Rightarrow> word32 \<Rightarrow> word32 \<Rightarrow> word32" where
  "ch x y z = (x AND y) XOR (NOT x AND z)"

definition maj :: "word32 \<Rightarrow> word32 \<Rightarrow> word32 \<Rightarrow> word32" where
  "maj x y z = (x AND y) XOR (x AND z) XOR (y AND z)"

definition bsig0 :: "word32 \<Rightarrow> word32" where
  "bsig0 x = rotr 2 x XOR rotr 13 x XOR rotr 22 x"

definition bsig1 :: "word32 \<Rightarrow> word32" where
  "bsig1 x = rotr 6 x XOR rotr 11 x XOR rotr 25 x"

definition ssig0 :: "word32 \<Rightarrow> word32" where
  "ssig0 x = rotr 7 x XOR rotr 18 x XOR drop_bit 3 x"

definition ssig1 :: "word32 \<Rightarrow> word32" where
  "ssig1 x = rotr 17 x XOR rotr 19 x XOR drop_bit 10 x"

text \<open>Padding: the byte 0x80, zero bytes up to 56 modulo 64, the bit length in 8 bytes.\<close>

definition sha256_pad :: "byte list \<Rightarrow> byte list" where
  "sha256_pad msg =
     (let l = length msg;
          z = (55 + 64 - l mod 64) mod 64;
          bits = 8 * l
      in msg @ [0x80] @ replicate z 0
           @ map (\<lambda>i. ucast (drop_bit (8 * (7 - i)) (of_nat bits :: 64 word))) [0..<8])"

fun be_words :: "byte list \<Rightarrow> word32 list" where
  "be_words (a # b # c # d # rest) =
     (push_bit 24 (ucast a) OR push_bit 16 (ucast b) OR push_bit 8 (ucast c) OR ucast d)
       # be_words rest"
| "be_words _ = []"

text \<open>
  The message schedule, built newest word first: after \<open>i\<close> words, \<open>W(i-2)\<close>, \<open>W(i-7)\<close>,
  \<open>W(i-15)\<close> and \<open>W(i-16)\<close> stand at positions 1, 6, 14 and 15.
\<close>

primrec extend :: "nat \<Rightarrow> word32 list \<Rightarrow> word32 list" where
  "extend 0 ws = ws"
| "extend (Suc n) ws =
     extend n ((ssig1 (ws ! 1) + ws ! 6 + ssig0 (ws ! 14) + ws ! 15) # ws)"

definition schedule :: "word32 list \<Rightarrow> word32 list" where
  "schedule block = rev (extend 48 (rev block))"

definition round_step :: "word32 list \<Rightarrow> word32 \<times> word32 \<Rightarrow> word32 list" where
  "round_step st kw =
     (let a = st ! 0; b = st ! 1; c = st ! 2; d = st ! 3;
          e = st ! 4; f = st ! 5; g = st ! 6; h = st ! 7;
          t1 = h + bsig1 e + ch e f g + fst kw + snd kw;
          t2 = bsig0 a + maj a b c
      in [t1 + t2, a, b, c, d + t1, e, f, g])"

definition compress :: "word32 list \<Rightarrow> word32 list \<Rightarrow> word32 list" where
  "compress st block =
     map2 (+) st (foldl round_step st (zip sha256_k (schedule block)))"

function sha256_blocks :: "word32 list \<Rightarrow> word32 list \<Rightarrow> word32 list" where
  "sha256_blocks st ws =
     (if length ws < 16 then st
      else sha256_blocks (compress st (take 16 ws)) (drop 16 ws))"
  by pat_completeness auto
termination
  by (relation "measure (\<lambda>(st, ws). length ws)") auto

declare sha256_blocks.simps [simp del]

definition sha256 :: "byte list \<Rightarrow> word32 list" where
  "sha256 msg = sha256_blocks sha256_h0 (be_words (sha256_pad msg))"

definition hex_digit :: "nat \<Rightarrow> nat" where
  "hex_digit n = of_char (''0123456789abcdef'' ! n)"

definition hex_word :: "word32 \<Rightarrow> pystr" where
  "hex_word w = map (\<lambda>i. hex_digit (unat (drop_bit (4 * (7 - i)) w AND 0xF))) [0..<8]"

definition hexdigest :: "word32 list \<Rightarrow> pystr" where
  "hexdigest ws = concat (map hex_word ws)"

section \<open>The dataset builder (\<open>src/build_dataset.py\<close>)\<close>

subsection \<open>Records\<close>

text \<open>
  \<open>SnippetRecord\<close> is a dataclass of two strings and a dict.  The metadata values the
  builder stores are strings and integers.
\<close>

datatype meta_value = MStr pystr | MInt int

record SnippetRecord =
  prompt :: pystr
  response :: pystr
  metadata :: "pystr \<rightharpoonup> meta_value"

subsection \<open>\<open>dedupe\<close>\<close>

text \<open>\<open>hashlib.sha256(rec.response.encode("utf-8")).hexdigest()\<close>.\<close>

definition response_digest :: "pystr \<Rightarrow> py_error + pystr" where
  "response_digest s =
     (case utf8_encode s of Inl e \<Rightarrow> Inl e | Inr bs \<Rightarrow> Inr (hexdigest (sha256 bs)))"

text \<open>
  The loop of \<open>dedupe\<close> over \<open>records\<close>, with its two accumulators: the list \<open>unique\<close>
  and the set \<open>seen\<close> of digests.  \<open>{**rec.metadata, "sha256": digest}\<close> is the map
  update at the key \<open>"sha256"\<close>.
\<close>

fun dedupe_loop ::
  "SnippetRecord list \<Rightarrow> SnippetRecord list \<Rightarrow> pystr set \<Rightarrow> py_error + SnippetRecord list"
where
  "dedupe_loop [] unique seen = Inr unique"
| "dedupe_loop (rcd # records) unique seen =
     (case response_digest (response rcd) of
        Inl e \<Rightarrow> Inl e
      | Inr digest \<Rightarrow>
          if digest \<in> seen then dedupe_loop records unique seen
          else
            (let enriched =
               \<lparr>prompt = prompt rcd, response = response rcd,
                metadata = (metadata rcd)(py_str ''sha256'' \<mapsto> MStr digest)\<rparr>
             in dedupe_loop records (unique @ [enriched]) (insert digest seen)))"

definition dedupe :: "SnippetRecord list \<Rightarrow> py_error + SnippetRecord list" where
  "dedupe records = dedupe_loop records [] {}"

subsection \<open>String methods\<close>

text \<open>
  The code points for which \<open>str.isspace\<close> holds; \<open>str.strip()\<close> without an argument
  removes exactly these from both ends.
\<close>

definition py_isspace :: "nat \<Rightarrow> bool" where
  "py_isspace c =
     ((0x09 \<le> c \<and> c \<le> 0x0D) \<or> (0x1C \<le> c \<and> c \<le> 0x20) \<or> c = 0x85 \<or> c = 0xA0
      \<or> c = 0x1680 \<or> (0x2000 \<le> c \<and> c \<le> 0x200A) \<or> c = 0x2028 \<or> c = 0x2029
      \<or> c = 0x202F \<or> c = 0x205F \<or> c = 0x3000)"

definition py_lstrip :: "pystr \<Rightarrow> pystr" where
  "py_lstrip s = dropWhile py_isspace s"

definition py_rstrip :: "pystr \<Rightarrow> pystr" where
  "py_rstrip s = rev (dropWhile py_isspace (rev s))"

definition py_strip :: "pystr \<Rightarrow> pystr" where
  "py_strip s = py_rstrip (py_lstrip s)"

text \<open>\<open>s.lstrip(chars)\<close>: the leading characters that occur in \<open>chars\<close> are removed.\<close>

definition py_lstrip_chars :: "pystr \<Rightarrow> pystr \<Rightarrow> pystr" where
  "py_lstrip_chars chars s = dropWhile (\<lambda>c. c \<in> set chars) s"

definition BOM :: nat where
  "BOM = 0xFEFF"

definition py_startswith :: "pystr \<Rightarrow> pystr \<Rightarrow> bool" where
  "py_startswith s pre = (take (length pre) s = pre)"

text \<open>\<open>sep.join(parts)\<close>.\<close>

fun py_join :: "pystr \<Rightarrow> pystr list \<Rightarrow> pystr" where
  "py_join sep [] = []"
| "py_join sep [p] = p"
| "py_join sep (p # q # ps) = p @ sep @ py_join sep (q # ps)"

text \<open>
  \<open>str.splitlines()\<close>: a line ends at LF, VT, FF, CR (CR LF counts once), FS, GS, RS, NEL,
  LS or PS; no empty last line is reported.
\<close>

definition py_linebreak :: "nat \<Rightarrow> bool" where
  "py_linebreak c =
     ((0x0A \<le> c \<and> c \<le> 0x0D) \<or> (0x1C \<le> c \<and> c \<le> 0x1E) \<or> c = 0x85
      \<or> c = 0x2028 \<or> c = 0x2029)"

fun splitlines_from :: "pystr \<Rightarrow> pystr \<Rightarrow> pystr list" where
  "splitlines_from cur [] = (if cur = [] then [] else [cur])"
| "splitlines_from cur [c] =
     (if py_linebreak c then [cur] else [cur @ [c]])"
| "splitlines_from cur (c # d # cs) =
     (if c = 0x0D \<and> d = 0x0A then cur # splitlines_from [] cs
      else if py_linebreak c then cur # splitlines_from [] (d # cs)
      else splitlines_from (cur @ [c]) (d # cs))"

definition py_splitlines :: "pystr \<Rightarrow> pystr list" where
  "py_splitlines s = splitlines_from [] s"

subsection \<open>\<open>build_prompt\<close>\<close>

text \<open>
  \<open>build_prompt\<close> also calls \<open>humanise_title\<close>, whose result it does not use; the prompt
  is the five lines joined by newlines.
\<close>

definition build_prompt :: "pystr \<Rightarrow> pystr \<Rightarrow> pystr \<Rightarrow> pystr" where
  "build_prompt category title source_path =
     py_join (py_str ''\<newline>'')
       [py_str ''You are maintaining a knowledge base of AutoHotkey examples.'',
        py_str ''Category: '' @ category,
        py_str ''Example ID: '' @ title,
        py_str ''Source Path: '' @ source_path,
        py_str ''Return the exact AutoHotkey snippet associated with this reference.'']"

subsection \<open>\<open>iterate_snippets\<close>\<close>

text \<open>
  One entry of \<open>sorted(root.rglob("*.ahk"))\<close>: the components of the path relative to
  the root (at least one), whether it is a regular file, and the text that \<open>read_text\<close>
  decodes.  The UTF-8 codec keeps a byte-order mark as the code point U+FEFF.
\<close>

record source_file =
  rel_parts :: "pystr list"
  is_file :: bool
  raw_text :: pystr

text \<open>\<open>PurePath.stem\<close>: the name up to its last dot, when that dot is neither first nor last.\<close>

definition py_rfind :: "pystr \<Rightarrow> nat \<Rightarrow> int" where
  "py_rfind s c =
     (case find (\<lambda>i. s ! i = c) (rev [0..<length s]) of None \<Rightarrow> - 1 | Some i \<Rightarrow> int i)"

definition path_stem :: "pystr \<Rightarrow> pystr" where
  "path_stem name =
     (let i = py_rfind name 0x2E
      in if 0 < i \<and> i < int (length name) - 1 then take (nat i) name else name)"

definition as_posix :: "pystr list \<Rightarrow> pystr" where
  "as_posix parts = py_join (py_str ''/'') parts"

text \<open>
  The body of the loop for one path; \<open>None\<close> is \<open>continue\<close>.  For a file directly under the
  root, \<open>rel_path.parent\<close> is \<open>.\<close>, whose name is the empty string.
\<close>

definition snippet_of :: "source_file \<Rightarrow> SnippetRecord option" where
  "snippet_of f =
     (if \<not> is_file f then None
      else
        (let raw = py_lstrip_chars [BOM] (raw_text f);
             snippet = py_strip raw
         in if snippet = [] then None
            else
              (let parts = rel_parts f;
                   category = (if length parts > 1 then parts ! 0 else []);
                   name = last parts;
                   title = path_stem name;
                   prompt = build_prompt category title (as_posix parts);
                   metadata =
                     [py_str ''source_path'' \<mapsto> MStr (as_posix parts),
                      py_str ''category'' \<mapsto> MStr category,
                      py_str ''filename'' \<mapsto> MStr name,
                      py_str ''line_count'' \<mapsto> MInt (int (length (py_splitlines snippet))),
                      py_str ''record_type'' \<mapsto> MStr (py_str ''snippet'')];
                   response = py_rstrip snippet @ py_str ''\<newline>''
               in Some \<lparr>prompt = prompt, response = response, metadata = metadata\<rparr>)))"

definition iterate_snippets :: "source_file list \<Rightarrow> SnippetRecord list" where
  "iterate_snippets files = List.map_filter snippet_of files"

subsection \<open>Floats\<close>

text \<open>
  A Python \<open>float\<close> is an IEEE 754 binary64 number: a finite value (a rational; the two
  zeros are not told apart, since no operation below distinguishes them), an infinity or
  a NaN.  \<open>round_to_double\<close> is the rounding of an exact result to the nearest
  representable value, ties to the even significand: 53 significant bits, the exponent
  of the last bit not below \<open>-1074\<close> (subnormal numbers), overflow to infinity from
  \<open>2 ^ 1024\<close> on.
\<close>

datatype pyfloat = Finite rat | PosInf | NegInf | NaN

definition round_half_even :: "rat \<Rightarrow> int" where
  "round_half_even x =
     (let f = \<lfloor>x\<rfloor>; d = x - of_int f
      in if d < 1 / 2 then f else if 1 / 2 < d then f + 1 else if even f then f else f + 1)"

text \<open>For positive \<open>x\<close>, the exponent \<open>e\<close> with \<open>2 powi e \<le> x < 2 powi (e + 1)\<close>.\<close>

definition floor_log2 :: "rat \<Rightarrow> int" where
  "floor_log2 x =
     (let (p, q) = quotient_of x; d = bitlen p - bitlen q
      in if 2 powi d \<le> x then d else d - 1)"

definition round_nearest :: "rat \<Rightarrow> rat" where
  "round_nearest x =
     (if x = 0 then 0
      else
        (let e = max (floor_log2 \<bar>x\<bar> - 52) (- 1074)
         in of_int (round_half_even (x / 2 powi e)) * 2 powi e))"

definition round_to_double :: "rat \<Rightarrow> pyfloat" where
  "round_to_double x =
     (let r = round_nearest x
      in if 2 ^ 1024 \<le> r then PosInf else if r \<le> - (2 ^ 1024) then NegInf else Finite r)"

fun float_add :: "pyfloat \<Rightarrow> pyfloat \<Rightarrow> pyfloat" where
  "float_add (Finite x) (Finite y) = round_to_double (x + y)"
| "float_add NaN b = NaN"
| "float_add a NaN = NaN"
| "float_add PosInf NegInf = NaN"
| "float_add NegInf PosInf = NaN"
| "float_add PosInf b = PosInf"
| "float_add NegInf b = NegInf"
| "float_add (Finite x) b = b"

fun float_mul :: "pyfloat \<Rightarrow> pyfloat \<Rightarrow> pyfloat" where
  "float_mul (Finite x) (Finite y) = round_to_double (x * y)"
| "float_mul NaN b = NaN"
| "float_mul a NaN = NaN"
| "float_mul (Finite x) PosInf = (if x = 0 then NaN else if 0 < x then PosInf else NegInf)"
| "float_mul (Finite x) NegInf = (if x = 0 then NaN else if 0 < x then NegInf else PosInf)"
| "float_mul PosInf (Finite y) = (if y = 0 then NaN else if 0 < y then PosInf else NegInf)"
| "float_mul NegInf (Finite y) = (if y = 0 then NaN else if 0 < y then NegInf else PosInf)"
| "float_mul PosInf PosInf = PosInf"
| "float_mul NegInf NegInf = PosInf"
| "float_mul PosInf NegInf = NegInf"
| "float_mul NegInf PosInf = NegInf"

text \<open>Comparisons: every comparison with a NaN is false.\<close>

fun float_lt :: "pyfloat \<Rightarrow> pyfloat \<Rightarrow> bool" where
  "float_lt (Finite x) (Finite y) = (x < y)"
| "float_lt NaN b = False"
| "float_lt a NaN = False"
| "float_lt PosInf b = False"
| "float_lt a NegInf = False"
| "float_lt a b = True"

fun float_le :: "pyfloat \<Rightarrow> pyfloat \<Rightarrow> bool" where
  "float_le (Finite x) (Finite y) = (x \<le> y)"
| "float_le NaN b = False"
| "float_le a NaN = False"
| "float_le NegInf b = True"
| "float_le a PosInf = True"
| "float_le a b = False"

text \<open>
  The conversion of an \<open>int\<close> operand in \<open>int * float\<close> (correctly rounded; too large an
  \<open>int\<close> raises \<open>OverflowError\<close>) and the truncation \<open>int(x)\<close> of a float.
\<close>

definition float_of_int :: "int \<Rightarrow> py_error + pyfloat" where
  "float_of_int n =
     (case round_to_double (of_int n) of
        Finite r \<Rightarrow> Inr (Finite r)
      | _ \<Rightarrow> Inl OverflowError)"

fun py_int :: "pyfloat \<Rightarrow> py_error + int" where
  "py_int (Finite x) = Inr (if 0 \<le> x then \<lfloor>x\<rfloor> else \<lceil>x\<rceil>)"
| "py_int NaN = Inl (ValueError ''cannot convert float NaN to integer'')"
| "py_int a = Inl OverflowError"

text \<open>\<open>int(total * ratio)\<close> for an \<open>int\<close> \<open>total\<close> and a float \<open>ratio\<close>.\<close>

definition int_of_product :: "int \<Rightarrow> pyfloat \<Rightarrow> py_error + int" where
  "int_of_product n ratio =
     (case float_of_int n of
        Inl e \<Rightarrow> Inl e
      | Inr ft \<Rightarrow> py_int (float_mul ft ratio))"

subsection \<open>Slices\<close>

text \<open>
  \<open>xs[lo:hi]\<close>: a negative bound counts from the end, and every bound is clamped to
  \<open>0 .. len(xs)\<close>; \<open>None\<close> is an omitted bound.
\<close>

definition slice_index :: "nat \<Rightarrow> int \<Rightarrow> nat" where
  "slice_index n i =
     (if i < 0 then (if i + int n < 0 then 0 else nat (i + int n))
      else if int n \<le> i then n else nat i)"

definition py_slice :: "'a list \<Rightarrow> int option \<Rightarrow> int option \<Rightarrow> 'a list" where
  "py_slice xs lo hi =
     (let n = length xs;
          a = (case lo of None \<Rightarrow> 0 | Some i \<Rightarrow> slice_index n i);
          b = (case hi of None \<Rightarrow> n | Some j \<Rightarrow> slice_index n j)
      in take (b - a) (drop a xs))"

subsection \<open>\<open>random.Random\<close>\<close>

text \<open>
  The generator of the standard library is a parameter: \<open>seed_int\<close> is the state that
  seeding with an \<open>int\<close> gives, and \<open>randbelow s n\<close> is the next draw below \<open>n\<close> with the
  state after it.  \<open>Random(x)\<close> seeds from its argument, and from the entropy of the
  operating system only when the argument is \<open>None\<close>.  \<open>shuffle\<close> is the loop of the
  library: for \<open>i\<close> from \<open>len(x) - 1\<close> down to 1, draw \<open>j\<close> below \<open>i + 1\<close> and exchange
  \<open>x[i]\<close> and \<open>x[j]\<close>.
\<close>

record 's rng_ops =
  seed_int :: "int \<Rightarrow> 's"
  randbelow :: "'s \<Rightarrow> nat \<Rightarrow> nat \<times> 's"

record py_env =
  os_urandom :: int

definition rng_ok :: "'s rng_ops \<Rightarrow> bool" where
  "rng_ok G = (\<forall>s n. 0 < n \<longrightarrow> fst (randbelow G s n) < n)"

definition Random :: "'s rng_ops \<Rightarrow> py_env \<Rightarrow> int option \<Rightarrow> 's" where
  "Random G env x = seed_int G (case x of None \<Rightarrow> os_urandom env | Some a \<Rightarrow> a)"

primrec shuffle_from :: "'s rng_ops \<Rightarrow> nat \<Rightarrow> 's \<Rightarrow> 'a list \<Rightarrow> 'a list" where
  "shuffle_from G 0 s x = x"
| "shuffle_from G (Suc k) s x =
     (let (j, s') = randbelow G s (Suc k + 1)
      in shuffle_from G k s' (x[Suc k := x ! j, j := x ! Suc k]))"

definition shuffle :: "'s rng_ops \<Rightarrow> 's \<Rightarrow> 'a list \<Rightarrow> 'a list" where
  "shuffle G s x = shuffle_from G (length x - 1) s x"

subsection \<open>\<open>split_records\<close>\<close>

text \<open>
  The three guards on the ratios, each raising \<open>ValueError\<close>; then a copy of the records
  is shuffled with a generator of its own, seeded from \<open>seed\<close>, and cut into the three
  slices.  The arithmetic is that of the source: \<open>val_ratio + test_ratio\<close> is a float sum,
  \<open>total * val_ratio\<close> a float product, truncated by \<open>int\<close>.
\<close>

definition split_records ::
  "'s rng_ops \<Rightarrow> py_env \<Rightarrow> 'a list \<Rightarrow> pyfloat \<Rightarrow> pyfloat \<Rightarrow> int
     \<Rightarrow> py_error + ('a list \<times> 'a list \<times> 'a list)"
where
  "split_records G env records val_ratio test_ratio seed =
     (if \<not> (float_le (Finite 0) val_ratio \<and> float_lt val_ratio (Finite 1)) then
        Inl (ValueError ''val-ratio must be in [0, 1)'')
      else if \<not> (float_le (Finite 0) test_ratio \<and> float_lt test_ratio (Finite 1)) then
        Inl (ValueError ''test-ratio must be in [0, 1)'')
      else if float_le (Finite 1) (float_add val_ratio test_ratio) then
        Inl (ValueError ''val-ratio + test-ratio must be less than 1'')
      else
        (let rng = Random G env (Some seed);
             shuffled = shuffle G rng records;
             total = int (length shuffled)
         in case int_of_product total val_ratio of
              Inl e \<Rightarrow> Inl e
            | Inr val_count \<Rightarrow>
                (case int_of_product total test_ratio of
                   Inl e \<Rightarrow> Inl e
                 | Inr test_count \<Rightarrow>
                     (let train_count = total - val_count - test_count;
                          train = py_slice shuffled None (Some train_count);
                          val = py_slice shuffled (Some train_count)
                                  (Some (train_count + val_count));
                          test = py_slice shuffled (Some (train_count + val_count)) None
                      in Inr (train, val, test)))))"

section \<open>The Harmony converter (\<open>src/data_prep.py\<close>)\<close>




section \<open>Auxiliary definitions\<close>

text \<open>
  For the proofs about \<open>dedupe\<close>: the digest as a total function, the record that the
  loop appends, and the list the loop builds from a given set of digests.
\<close>

definition digest :: "pystr \<Rightarrow> pystr" where
  "digest s = (case response_digest s of Inl e \<Rightarrow> [] | Inr d \<Rightarrow> d)"

definition enrich :: "SnippetRecord \<Rightarrow> SnippetRecord" where
  "enrich r =
     \<lparr>prompt = prompt r, response = response r,
      metadata = (metadata r)(py_str ''sha256'' \<mapsto> MStr (digest (response r)))\<rparr>"

fun first_seen :: "pystr set \<Rightarrow> SnippetRecord list \<Rightarrow> SnippetRecord list" where
  "first_seen seen [] = []"
| "first_seen seen (r # rs) =
     (if digest (response r) \<in> seen then first_seen seen rs
      else enrich r # first_seen (insert (digest (response r)) seen) rs)"

text \<open>
  For the statements about \<open>split_records\<close>: a ratio in \<open>[0, 1)\<close>, and a valid pair of
  ratios, with the comparisons and the addition of the floats.
\<close>

definition in_unit_interval :: "pyfloat \<Rightarrow> bool" where
  "in_unit_interval r = (float_le (Finite 0) r \<and> float_lt r (Finite 1))"

definition valid_ratios :: "pyfloat \<Rightarrow> pyfloat \<Rightarrow> bool" where
  "valid_ratios val_ratio test_ratio =
     (in_unit_interval val_ratio \<and> in_unit_interval test_ratio
      \<and> float_lt (float_add val_ratio test_ratio) (Finite 1))"

section \<open>Properties of \<open>dedupe\<close>\<close>

subsection \<open>Encoding and hashing\<close>

lemma utf8_encode_char_cases:
  "utf8_encode_char c = Inl UnicodeEncodeError \<or> (\<exists>bs. utf8_encode_char c = Inr bs)"
  by (simp add: utf8_encode_char_def)

lemma utf8_encode_char_ok:
  "(\<exists>bs. utf8_encode_char c = Inr bs) \<longleftrightarrow> c < 0x110000 \<and> \<not> (0xD800 \<le> c \<and> c < 0xE000)"
  by (auto simp add: utf8_encode_char_def)

lemma utf8_encode_Inr_iff: "(\<exists>bs. utf8_encode s = Inr bs) \<longleftrightarrow> encodable s"
proof (induction s)
  case Nil
  show ?case by (simp add: encodable_def)
next
  case (Cons c cs)
  have "encodable (c # cs) \<longleftrightarrow> (\<exists>bs. utf8_encode_char c = Inr bs) \<and> encodable cs"
    unfolding utf8_encode_char_ok by (simp add: encodable_def)
  with Cons show ?case
    by (auto split: sum.splits)
qed

lemma utf8_encode_Inl: "utf8_encode s = Inl e \<Longrightarrow> e = UnicodeEncodeError"
proof (induction s)
  case Nil
  then show ?case by simp
next
  case (Cons c cs)
  then show ?case
    using utf8_encode_char_cases [of c] by (auto split: sum.splits)
qed

lemma response_digest_encodable:
  "encodable s \<Longrightarrow> response_digest s = Inr (digest s)"
  using utf8_encode_Inr_iff [of s] by (auto simp add: response_digest_def digest_def)

lemma response_digest_not_encodable:
  "\<not> encodable s \<Longrightarrow> response_digest s = Inl UnicodeEncodeError"
  using utf8_encode_Inr_iff [of s] utf8_encode_Inl [of s]
  by (auto simp add: response_digest_def split: sum.splits)

subsection \<open>The loop\<close>

text \<open>
  On records whose responses can be encoded, the loop appends \<open>first_seen seen records\<close>
  to \<open>unique\<close>; on any other list it raises.
\<close>

lemma dedupe_loop_first_seen:
  "\<forall>r\<in>set rs. encodable (response r) \<Longrightarrow>
   dedupe_loop rs unique seen = Inr (unique @ first_seen seen rs)"
proof (induction rs arbitrary: unique seen)
  case Nil
  show ?case by simp
next
  case (Cons r rs)
  then show ?case
    by (simp add: response_digest_encodable enrich_def)
qed

lemma dedupe_loop_raises:
  "\<exists>r\<in>set rs. \<not> encodable (response r) \<Longrightarrow>
   dedupe_loop rs unique seen = Inl UnicodeEncodeError"
proof (induction rs arbitrary: unique seen)
  case Nil
  then show ?case by simp
next
  case (Cons r rs)
  show ?case
  proof (cases "encodable (response r)")
    case True
    with Cons.prems have "\<exists>x\<in>set rs. \<not> encodable (response x)" by auto
    with Cons.IH True show ?thesis
      by (simp add: response_digest_encodable)
  next
    case False
    then show ?thesis by (simp add: response_digest_not_encodable)
  qed
qed

lemma response_enrich [simp]: "response (enrich r) = response r"
  by (simp add: enrich_def)

lemma prompt_enrich [simp]: "prompt (enrich r) = prompt r"
  by (simp add: enrich_def)

lemma enrich_idem [simp]: "enrich (enrich r) = enrich r"
  by (simp add: enrich_def)

lemma first_seen_fresh:
  "x \<in> set (first_seen seen rs) \<Longrightarrow> digest (response x) \<notin> seen"
  by (induction rs arbitrary: seen) (auto split: if_splits)

lemma first_seen_from:
  "x \<in> set (first_seen seen rs) \<Longrightarrow> \<exists>r\<in>set rs. x = enrich r"
  by (induction rs arbitrary: seen) (auto split: if_splits)

lemma first_seen_distinct:
  "distinct (map (\<lambda>x. digest (response x)) (first_seen seen rs))"
proof (induction rs arbitrary: seen)
  case Nil
  show ?case by simp
next
  case (Cons r rs)
  have "digest (response r) \<notin> (\<lambda>x. digest (response x)) `
          set (first_seen (insert (digest (response r)) seen) rs)"
    using first_seen_fresh [of _ "insert (digest (response r)) seen" rs] by fastforce
  with Cons.IH show ?case by simp
qed

lemma first_seen_find:
  "x \<in> set (first_seen seen rs) \<Longrightarrow>
   \<exists>r. find (\<lambda>y. response y = response x) rs = Some r \<and> x = enrich r"
proof (induction rs arbitrary: seen)
  case Nil
  then show ?case by simp
next
  case (Cons r rs)
  show ?case
  proof (cases "digest (response r) \<in> seen")
    case True
    with Cons.prems have x: "x \<in> set (first_seen seen rs)" by simp
    from first_seen_fresh [OF x] True have "response r \<noteq> response x" by auto
    with Cons.IH [OF x] show ?thesis by simp
  next
    case False
    show ?thesis
    proof (cases "x = enrich r")
      case True
      then show ?thesis by simp
    next
      case ne: False
      with Cons.prems False
      have x: "x \<in> set (first_seen (insert (digest (response r)) seen) rs)" by simp
      from first_seen_fresh [OF x] have "response r \<noteq> response x" by auto
      with Cons.IH [OF x] show ?thesis by simp
    qed
  qed
qed

lemma first_seen_fixed:
  "distinct (map (\<lambda>x. digest (response x)) xs) \<Longrightarrow>
   \<forall>x\<in>set xs. digest (response x) \<notin> seen \<and> enrich x = x \<Longrightarrow>
   first_seen seen xs = xs"
proof (induction xs arbitrary: seen)
  case Nil
  show ?case by simp
next
  case (Cons x xs)
  have "\<forall>y\<in>set xs. digest (response y) \<notin> insert (digest (response x)) seen \<and> enrich y = y"
  proof
    fix y
    assume y: "y \<in> set xs"
    then have "digest (response y) \<in> (\<lambda>x. digest (response x)) ` set xs"
      by (rule imageI)
    moreover from Cons.prems(1)
    have "digest (response x) \<notin> (\<lambda>x. digest (response x)) ` set xs" by simp
    ultimately have "digest (response y) \<noteq> digest (response x)" by metis
    with Cons.prems(2) y
    show "digest (response y) \<notin> insert (digest (response x)) seen \<and> enrich y = y" by simp
  qed
  with Cons.prems have "first_seen (insert (digest (response x)) seen) xs = xs"
    by (intro Cons.IH) simp_all
  with Cons.prems show ?case by simp
qed

lemma first_seen_idem: "first_seen seen (first_seen seen rs) = first_seen seen rs"
proof (rule first_seen_fixed)
  show "distinct (map (\<lambda>x. digest (response x)) (first_seen seen rs))"
    by (rule first_seen_distinct)
  show "\<forall>x\<in>set (first_seen seen rs). digest (response x) \<notin> seen \<and> enrich x = x"
    using first_seen_fresh first_seen_from by fastforce
qed


subsection \<open>The digest\<close>

text \<open>The digest of \<open>"abc"\<close>, the first test vector of the standard.\<close>

lemma sha256_abc:
  "response_digest (py_str ''abc'')
     = Inr (py_str ''ba7816bf8f01cfea414140de5dae2223b00361a396177a9cb410ff61f20015ad'')"
  by code_simp

lemma length_round_step: "length (round_step st kw) = 8"
  by (simp add: round_step_def Let_def)

lemma length_foldl_round_step:
  "length st = 8 \<Longrightarrow> length (foldl round_step st kws) = 8"
  by (induction kws arbitrary: st) (simp_all add: length_round_step)

lemma length_compress: "length st = 8 \<Longrightarrow> length (compress st block) = 8"
  by (simp add: compress_def length_foldl_round_step)

lemma length_sha256_blocks: "length st = 8 \<Longrightarrow> length (sha256_blocks st ws) = 8"
proof (induction st ws rule: sha256_blocks.induct)
  case (1 st ws)
  show ?case
  proof (cases "length ws < 16")
    case True
    with "1.prems" show ?thesis by (subst sha256_blocks.simps) simp
  next
    case False
    with "1.IH" "1.prems" show ?thesis
      by (subst sha256_blocks.simps) (simp add: length_compress)
  qed
qed

lemma length_sha256: "length (sha256 msg) = 8"
  by (simp add: sha256_def sha256_h0_def length_sha256_blocks)

lemma length_hexdigest: "length (hexdigest ws) = 8 * length ws"
  by (induction ws) (simp_all add: hexdigest_def hex_word_def)

lemma length_response_digest: "response_digest s = Inr d \<Longrightarrow> length d = 64"
  by (auto simp add: response_digest_def length_hexdigest length_sha256 split: sum.splits)

subsection \<open>The claims about \<open>dedupe\<close>\<close>

lemma dedupe_eq:
  "\<forall>r\<in>set records. encodable (response r) \<Longrightarrow> dedupe records = Inr (first_seen {} records)"
  by (simp add: dedupe_def dedupe_loop_first_seen)

lemma dedupe_returns_iff:
  "(\<exists>out. dedupe records = Inr out) \<longleftrightarrow> (\<forall>r\<in>set records. encodable (response r))"
proof
  assume ret: "\<exists>out. dedupe records = Inr out"
  show "\<forall>r\<in>set records. encodable (response r)"
  proof (rule ccontr)
    assume "\<not> (\<forall>r\<in>set records. encodable (response r))"
    then have "dedupe records = Inl UnicodeEncodeError"
      by (simp add: dedupe_def dedupe_loop_raises)
    with ret show False by simp
  qed
next
  assume "\<forall>r\<in>set records. encodable (response r)"
  then show "\<exists>out. dedupe records = Inr out"
    by (simp add: dedupe_eq)
qed

lemma dedupe_Inr:
  "dedupe records = Inr out \<Longrightarrow>
   out = first_seen {} records \<and> (\<forall>r\<in>set records. encodable (response r))"
  using dedupe_returns_iff [of records] dedupe_eq [of records] by auto

lemma distinct_map_outer:
  "distinct (map (\<lambda>x. f (g x)) xs) \<Longrightarrow> distinct (map g xs)"
  by (induction xs) auto

lemma first_seen_covers:
  "r \<in> set rs \<Longrightarrow>
   digest (response r) \<in> seen
   \<or> (\<exists>x\<in>set (first_seen seen rs). digest (response x) = digest (response r))"
proof (induction rs arbitrary: seen)
  case Nil
  then show ?case by simp
next
  case (Cons a rs)
  show ?case
  proof (cases "r = a")
    case True
    then show ?thesis by auto
  next
    case False
    with Cons.prems have r: "r \<in> set rs" by simp
    show ?thesis
    proof (cases "digest (response a) \<in> seen")
      case True
      with Cons.IH [OF r, of seen] show ?thesis by simp
    next
      case False
      with Cons.IH [OF r, of "insert (digest (response a)) seen"] show ?thesis
        by auto
    qed
  qed
qed

text \<open>
  Claim C2.  Whenever \<open>dedupe\<close> returns, no two records of its output have the same
  response, and every output record is the first input record, in input order, that has
  its response, with the digest stored under \<open>"sha256"\<close>: prompt, response and all other
  metadata are those of that first record, not of a later duplicate.  Nothing is lost
  beyond duplicates: every input record has its digest in the output, so that every
  response of the input is retained once unless two different responses share a
  digest.  \<open>dedupe\<close> returns exactly when every response can be encoded as UTF-8;
  otherwise \<open>encode\<close> raises.
\<close>

theorem dedupe_keeps_first_per_response:
  "(\<forall>out. dedupe records = Inr out \<longrightarrow>
      distinct (map response out)
      \<and> (\<forall>x\<in>set out. \<exists>r d. find (\<lambda>y. response y = response x) records = Some r
            \<and> response_digest (response r) = Inr d
            \<and> x = \<lparr>prompt = prompt r, response = response r,
                    metadata = (metadata r)(py_str ''sha256'' \<mapsto> MStr d)\<rparr>)
      \<and> (\<forall>r\<in>set records. \<exists>x\<in>set out.
            response_digest (response x) = response_digest (response r))
      \<and> ((\<forall>a\<in>set records. \<forall>b\<in>set records.
              response_digest (response a) = response_digest (response b)
              \<longrightarrow> response a = response b)
           \<longrightarrow> response ` set out = response ` set records))
   \<and> ((\<exists>out. dedupe records = Inr out) \<longleftrightarrow> (\<forall>r\<in>set records. encodable (response r)))"
proof (intro conjI allI impI)
  fix out
  assume "dedupe records = Inr out"
  then have out: "out = first_seen {} records"
    and enc: "\<forall>r\<in>set records. encodable (response r)"
    by (simp_all add: dedupe_Inr)
  have dg: "response_digest (response r) = Inr (digest (response r))"
    if "r \<in> set records" for r
    using that enc by (simp add: response_digest_encodable)
  have from_input: "\<exists>r\<in>set records. x = enrich r" if "x \<in> set out" for x
    using that unfolding out by (rule first_seen_from)
  show "distinct (map response out)"
    unfolding out using first_seen_distinct [of "{}" records] by (rule distinct_map_outer)
  show first: "\<forall>x\<in>set out. \<exists>r d. find (\<lambda>y. response y = response x) records = Some r
            \<and> response_digest (response r) = Inr d
            \<and> x = \<lparr>prompt = prompt r, response = response r,
                    metadata = (metadata r)(py_str ''sha256'' \<mapsto> MStr d)\<rparr>"
  proof
    fix x
    assume "x \<in> set out"
    then obtain r where f: "find (\<lambda>y. response y = response x) records = Some r"
      and x: "x = enrich r"
      unfolding out using first_seen_find by blast
    from f have "r \<in> set records"
      by (auto simp add: find_Some_iff)
    then have "response_digest (response r) = Inr (digest (response r))"
      by (rule dg)
    with f x show "\<exists>r d. find (\<lambda>y. response y = response x) records = Some r
            \<and> response_digest (response r) = Inr d
            \<and> x = \<lparr>prompt = prompt r, response = response r,
                    metadata = (metadata r)(py_str ''sha256'' \<mapsto> MStr d)\<rparr>"
      unfolding enrich_def by blast
  qed
  show covers: "\<forall>r\<in>set records. \<exists>x\<in>set out.
            response_digest (response x) = response_digest (response r)"
  proof
    fix r
    assume r: "r \<in> set records"
    with first_seen_covers [of r records "{}"]
    obtain x where x: "x \<in> set out" "digest (response x) = digest (response r)"
      unfolding out by auto
    from from_input [OF x(1)] obtain r' where "r' \<in> set records" "response x = response r'"
      by auto
    then have "response_digest (response x) = Inr (digest (response x))"
      using dg by simp
    with x dg [OF r]
    show "\<exists>x\<in>set out. response_digest (response x) = response_digest (response r)"
      by auto
  qed
  assume inj: "\<forall>a\<in>set records. \<forall>b\<in>set records.
      response_digest (response a) = response_digest (response b) \<longrightarrow> response a = response b"
  show "response ` set out = response ` set records"
  proof
    show "response ` set out \<subseteq> response ` set records"
      using from_input by force
    show "response ` set records \<subseteq> response ` set out"
    proof
      fix s
      assume "s \<in> response ` set records"
      then obtain r where r: "r \<in> set records" "s = response r" by auto
      with covers obtain x where x: "x \<in> set out"
        "response_digest (response x) = response_digest (response r)" by blast
      from from_input [OF x(1)] obtain r' where r': "r' \<in> set records"
        "response x = response r'" by auto
      with x(2) inj r(1) have "response r' = response r" by simp
      with r'(2) r(2) have "s = response x" by simp
      then show "s \<in> response ` set out" using x(1) by (rule image_eqI)
    qed
  qed
next
  show "(\<exists>out. dedupe records = Inr out) \<longleftrightarrow> (\<forall>r\<in>set records. encodable (response r))"
    by (rule dedupe_returns_iff)
qed

theorem dedupe_keeps_first_per_response_witness:
  "\<exists>out. dedupe
     [\<lparr>prompt = py_str ''first'', response = py_str ''duplicate'', metadata = Map.empty\<rparr>,
      \<lparr>prompt = py_str ''second'', response = py_str ''duplicate'',
       metadata = [py_str ''origin'' \<mapsto> MStr (py_str ''later'')]\<rparr>,
      \<lparr>prompt = py_str ''third'', response = py_str ''other'', metadata = Map.empty\<rparr>] = Inr out
     \<and> (distinct (map response out)
      \<and> (\<forall>x\<in>set out. \<exists>r d. find (\<lambda>y. response y = response x)
     [\<lparr>prompt = py_str ''first'', response = py_str ''duplicate'', metadata = Map.empty\<rparr>,
      \<lparr>prompt = py_str ''second'', response = py_str ''duplicate'',
       metadata = [py_str ''origin'' \<mapsto> MStr (py_str ''later'')]\<rparr>,
      \<lparr>prompt = py_str ''third'', response = py_str ''other'', metadata = Map.empty\<rparr>] = Some r
            \<and> response_digest (response r) = Inr d
            \<and> x = \<lparr>prompt = prompt r, response = response r,
                    metadata = (metadata r)(py_str ''sha256'' \<mapsto> MStr d)\<rparr>)
      \<and> (\<forall>r\<in>set
     [\<lparr>prompt = py_str ''first'', response = py_str ''duplicate'', metadata = Map.empty\<rparr>,
      \<lparr>prompt = py_str ''second'', response = py_str ''duplicate'',
       metadata = [py_str ''origin'' \<mapsto> MStr (py_str ''later'')]\<rparr>,
      \<lparr>prompt = py_str ''third'', response = py_str ''other'', metadata = Map.empty\<rparr>]. \<exists>x\<in>set out.
            response_digest (response x) = response_digest (response r))
      \<and> ((\<forall>a\<in>set
     [\<lparr>prompt = py_str ''first'', response = py_str ''duplicate'', metadata = Map.empty\<rparr>,
      \<lparr>prompt = py_str ''second'', response = py_str ''duplicate'',
       metadata = [py_str ''origin'' \<mapsto> MStr (py_str ''later'')]\<rparr>,
      \<lparr>prompt = py_str ''third'', response = py_str ''other'', metadata = Map.empty\<rparr>]. \<forall>b\<in>set
     [\<lparr>prompt = py_str ''first'', response = py_str ''duplicate'', metadata = Map.empty\<rparr>,
      \<lparr>prompt = py_str ''second'', response = py_str ''duplicate'',
       metadata = [py_str ''origin'' \<mapsto> MStr (py_str ''later'')]\<rparr>,
      \<lparr>prompt = py_str ''third'', response = py_str ''other'', metadata = Map.empty\<rparr>].
              response_digest (response a) = response_digest (response b)
              \<longrightarrow> response a = response b)
           \<longrightarrow> response ` set out = response ` set
     [\<lparr>prompt = py_str ''first'', response = py_str ''duplicate'', metadata = Map.empty\<rparr>,
      \<lparr>prompt = py_str ''second'', response = py_str ''duplicate'',
       metadata = [py_str ''origin'' \<mapsto> MStr (py_str ''later'')]\<rparr>,
      \<lparr>prompt = py_str ''third'', response = py_str ''other'', metadata = Map.empty\<rparr>]))"
proof -
  let ?W = "[\<lparr>prompt = py_str ''first'', response = py_str ''duplicate'', metadata = Map.empty\<rparr>,
      \<lparr>prompt = py_str ''second'', response = py_str ''duplicate'',
       metadata = [py_str ''origin'' \<mapsto> MStr (py_str ''later'')]\<rparr>,
      \<lparr>prompt = py_str ''third'', response = py_str ''other'', metadata = Map.empty\<rparr>]"
  have "\<forall>r\<in>set ?W. encodable (response r)"
    by (simp add: encodable_def py_str_def)
  with dedupe_keeps_first_per_response [of ?W, THEN conjunct2]
  obtain out where out: "dedupe ?W = Inr out"
    by blast
  note kept = dedupe_keeps_first_per_response [of ?W, THEN conjunct1, THEN spec, THEN mp, OF out]
  show ?thesis
    by (rule exI [of _ out], rule conjI, rule out, rule kept)
qed

text \<open>
  Of two records with the same response the first is kept, with its own metadata.
\<close>

lemma dedupe_keeps_first_example:
  "dedupe
     [\<lparr>prompt = py_str ''first'', response = py_str ''duplicate'', metadata = Map.empty\<rparr>,
      \<lparr>prompt = py_str ''second'', response = py_str ''duplicate'',
       metadata = [py_str ''origin'' \<mapsto> MStr (py_str ''later'')]\<rparr>]
   = (case response_digest (py_str ''duplicate'') of
        Inl e \<Rightarrow> Inl e
      | Inr d \<Rightarrow>
          Inr [\<lparr>prompt = py_str ''first'', response = py_str ''duplicate'',
                metadata = [py_str ''sha256'' \<mapsto> MStr d]\<rparr>])"
  by (simp add: dedupe_def split: sum.splits)

lemma distinct_map_inj:
  "distinct (map f xs) \<Longrightarrow> inj g \<Longrightarrow> distinct (map (\<lambda>x. g (f x)) xs)"
  by (induction xs) (auto dest: injD)

lemma first_seen_member:
  assumes "x \<in> set (first_seen seen records)"
    and "\<forall>r\<in>set records. encodable (response r)"
  shows "\<exists>r\<in>set records. prompt x = prompt r \<and> response x = response r
           \<and> response_digest (response r) = Inr (digest (response r))
           \<and> metadata x = (metadata r)(py_str ''sha256'' \<mapsto> MStr (digest (response r)))"
proof -
  from assms(1) obtain r where r: "r \<in> set records" "x = enrich r"
    using first_seen_from by blast
  with assms(2) have "response_digest (response r) = Inr (digest (response r))"
    by (simp add: response_digest_encodable)
  with r show ?thesis
    by (auto simp add: enrich_def)
qed

text \<open>
  Claim C5.  Whenever \<open>dedupe\<close> returns, every output record stores under \<open>"sha256"\<close> the
  digest of its own response, and these stored values are pairwise different.
\<close>

theorem dedupe_hashes_unique:
  "(\<forall>out. dedupe records = Inr out \<longrightarrow>
      (\<forall>x\<in>set out. \<exists>d. response_digest (response x) = Inr d
          \<and> metadata x (py_str ''sha256'') = Some (MStr d))
      \<and> distinct (map (\<lambda>x. metadata x (py_str ''sha256'')) out))
   \<and> ((\<exists>out. dedupe records = Inr out) \<longleftrightarrow> (\<forall>r\<in>set records. encodable (response r)))"
proof (intro conjI allI impI)
  fix out
  assume "dedupe records = Inr out"
  then have out: "out = first_seen {} records"
    and enc: "\<forall>r\<in>set records. encodable (response r)"
    by (simp_all add: dedupe_Inr)
  have sha: "metadata x (py_str ''sha256'') = Some (MStr (digest (response x)))"
    and dg: "response_digest (response x) = Inr (digest (response x))"
    if "x \<in> set out" for x
    using first_seen_member [OF that [unfolded out] enc] by auto
  from dg sha
  show "\<forall>x\<in>set out. \<exists>d. response_digest (response x) = Inr d
          \<and> metadata x (py_str ''sha256'') = Some (MStr d)"
    by blast
  have "distinct (map (\<lambda>x. Some (MStr (digest (response x)))) out)"
    unfolding out using first_seen_distinct [of "{}" records]
    by (rule distinct_map_inj) (simp add: inj_def)
  moreover have "map (\<lambda>x. metadata x (py_str ''sha256'')) out
      = map (\<lambda>x. Some (MStr (digest (response x)))) out"
    by (rule map_cong [OF refl]) (rule sha)
  ultimately show "distinct (map (\<lambda>x. metadata x (py_str ''sha256'')) out)"
    by (simp only:)
next
  show "(\<exists>out. dedupe records = Inr out) \<longleftrightarrow> (\<forall>r\<in>set records. encodable (response r))"
    by (rule dedupe_returns_iff)
qed

theorem dedupe_hashes_unique_witness:
  "\<exists>out. dedupe
     [\<lparr>prompt = py_str ''prompt1'', response = py_str ''response1'', metadata = Map.empty\<rparr>,
      \<lparr>prompt = py_str ''prompt2'', response = py_str ''response1'', metadata = Map.empty\<rparr>,
      \<lparr>prompt = py_str ''prompt3'', response = py_str ''response2'', metadata = Map.empty\<rparr>]
       = Inr out
     \<and> (\<forall>x\<in>set out. \<exists>d. response_digest (response x) = Inr d
          \<and> metadata x (py_str ''sha256'') = Some (MStr d))
     \<and> distinct (map (\<lambda>x. metadata x (py_str ''sha256'')) out)"
proof -
  let ?W = "[\<lparr>prompt = py_str ''prompt1'', response = py_str ''response1'', metadata = Map.empty\<rparr>,
      \<lparr>prompt = py_str ''prompt2'', response = py_str ''response1'', metadata = Map.empty\<rparr>,
      \<lparr>prompt = py_str ''prompt3'', response = py_str ''response2'', metadata = Map.empty\<rparr>]"
  have "\<forall>r\<in>set ?W. encodable (response r)"
    by (simp add: encodable_def py_str_def)
  with dedupe_hashes_unique [of ?W, THEN conjunct2] obtain out where out: "dedupe ?W = Inr out"
    by blast
  from dedupe_hashes_unique [of ?W, THEN conjunct1, THEN spec, THEN mp, OF out] out
  show ?thesis
    by (intro exI [of _ out]) simp
qed

text \<open>
  Claim C7, as stated, fails for a record whose metadata already has the key \<open>"sha256"\<close>:
  the dict display \<open>{**rec.metadata, "sha256": digest}\<close> overwrites the value and adds no
  key.  The input metadata \<open>{"sha256": "stale"}\<close> becomes \<open>{"sha256": digest}\<close>.
\<close>

theorem dedupe_overwrites_sha256_key:
  "dedupe
     [\<lparr>prompt = py_str ''p'', response = py_str ''r'',
       metadata = [py_str ''sha256'' \<mapsto> MStr (py_str ''stale'')]\<rparr>]
   = Inr [\<lparr>prompt = py_str ''p'', response = py_str ''r'',
           metadata = [py_str ''sha256'' \<mapsto> MStr (hexdigest (sha256 [0x72]))]\<rparr>]
   \<and> hexdigest (sha256 [0x72]) \<noteq> py_str ''stale''"
proof
  show "dedupe
     [\<lparr>prompt = py_str ''p'', response = py_str ''r'',
       metadata = [py_str ''sha256'' \<mapsto> MStr (py_str ''stale'')]\<rparr>]
   = Inr [\<lparr>prompt = py_str ''p'', response = py_str ''r'',
           metadata = [py_str ''sha256'' \<mapsto> MStr (hexdigest (sha256 [0x72]))]\<rparr>]"
    by (simp add: dedupe_def response_digest_def utf8_encode_char_def py_str_def)
  have "length (hexdigest (sha256 [0x72])) = 64"
    by (simp add: length_hexdigest length_sha256)
  then show "hexdigest (sha256 [0x72]) \<noteq> py_str ''stale''"
    by (auto simp add: py_str_def)
qed

text \<open>
  Claim C7, amended.  Every record that \<open>dedupe\<close> retains has the prompt and the response
  of an input record, and its metadata is the metadata of that record updated at the
  key \<open>"sha256"\<close> with the digest of the response: the keys are the old keys and
  \<open>"sha256"\<close>, and every other key keeps its value.
\<close>

theorem dedupe_frame:
  "(\<forall>out. dedupe records = Inr out \<longrightarrow>
      (\<forall>x\<in>set out. \<exists>r\<in>set records. \<exists>d.
          prompt x = prompt r \<and> response x = response r
          \<and> response_digest (response r) = Inr d
          \<and> metadata x = (metadata r)(py_str ''sha256'' \<mapsto> MStr d)
          \<and> dom (metadata x) = insert (py_str ''sha256'') (dom (metadata r))
          \<and> (\<forall>k. k \<noteq> py_str ''sha256'' \<longrightarrow> metadata x k = metadata r k)))
   \<and> ((\<exists>out. dedupe records = Inr out) \<longleftrightarrow> (\<forall>r\<in>set records. encodable (response r)))"
proof (intro conjI allI impI)
  fix out
  assume "dedupe records = Inr out"
  then have out: "out = first_seen {} records"
    and enc: "\<forall>r\<in>set records. encodable (response r)"
    by (simp_all add: dedupe_Inr)
  show "\<forall>x\<in>set out. \<exists>r\<in>set records. \<exists>d.
          prompt x = prompt r \<and> response x = response r
          \<and> response_digest (response r) = Inr d
          \<and> metadata x = (metadata r)(py_str ''sha256'' \<mapsto> MStr d)
          \<and> dom (metadata x) = insert (py_str ''sha256'') (dom (metadata r))
          \<and> (\<forall>k. k \<noteq> py_str ''sha256'' \<longrightarrow> metadata x k = metadata r k)"
  proof
    fix x
    assume "x \<in> set out"
    then obtain r where r: "r \<in> set records" "prompt x = prompt r" "response x = response r"
      "response_digest (response r) = Inr (digest (response r))"
      "metadata x = (metadata r)(py_str ''sha256'' \<mapsto> MStr (digest (response r)))"
      unfolding out using first_seen_member [OF _ enc] by blast
    from r(5) have "dom (metadata x) = insert (py_str ''sha256'') (dom (metadata r))"
      and "\<forall>k. k \<noteq> py_str ''sha256'' \<longrightarrow> metadata x k = metadata r k"
      by simp_all
    with r show "\<exists>r\<in>set records. \<exists>d.
          prompt x = prompt r \<and> response x = response r
          \<and> response_digest (response r) = Inr d
          \<and> metadata x = (metadata r)(py_str ''sha256'' \<mapsto> MStr d)
          \<and> dom (metadata x) = insert (py_str ''sha256'') (dom (metadata r))
          \<and> (\<forall>k. k \<noteq> py_str ''sha256'' \<longrightarrow> metadata x k = metadata r k)"
      by blast
  qed
next
  show "(\<exists>out. dedupe records = Inr out) \<longleftrightarrow> (\<forall>r\<in>set records. encodable (response r))"
    by (rule dedupe_returns_iff)
qed

theorem dedupe_frame_witness:
  "\<exists>out. dedupe
     [\<lparr>prompt = py_str ''prompt'', response = py_str ''response'',
       metadata = [py_str ''existing'' \<mapsto> MStr (py_str ''data'')]\<rparr>] = Inr out
     \<and> (\<forall>x\<in>set out. \<exists>r\<in>set
          [\<lparr>prompt = py_str ''prompt'', response = py_str ''response'',
            metadata = [py_str ''existing'' \<mapsto> MStr (py_str ''data'')]\<rparr>]. \<exists>d.
          prompt x = prompt r \<and> response x = response r
          \<and> response_digest (response r) = Inr d
          \<and> metadata x = (metadata r)(py_str ''sha256'' \<mapsto> MStr d)
          \<and> dom (metadata x) = insert (py_str ''sha256'') (dom (metadata r))
          \<and> (\<forall>k. k \<noteq> py_str ''sha256'' \<longrightarrow> metadata x k = metadata r k))"
proof -
  let ?W = "[\<lparr>prompt = py_str ''prompt'', response = py_str ''response'',
       metadata = [py_str ''existing'' \<mapsto> MStr (py_str ''data'')]\<rparr>]"
  have "\<forall>r\<in>set ?W. encodable (response r)"
    by (simp add: encodable_def py_str_def)
  with dedupe_frame [of ?W, THEN conjunct2] obtain out where out: "dedupe ?W = Inr out"
    by blast
  from dedupe_frame [of ?W, THEN conjunct1, THEN spec, THEN mp, OF out] out
  show ?thesis
    by (intro exI [of _ out]) simp
qed

text \<open>
  Claim C9.  \<open>dedupe\<close> is idempotent: applied to its own output it returns that output
  unchanged.
\<close>

theorem dedupe_idempotent:
  "(\<forall>out. dedupe records = Inr out \<longrightarrow> dedupe out = Inr out)
   \<and> ((\<exists>out. dedupe records = Inr out) \<longleftrightarrow> (\<forall>r\<in>set records. encodable (response r)))"
proof (intro conjI allI impI)
  fix out
  assume "dedupe records = Inr out"
  then have out: "out = first_seen {} records"
    and enc: "\<forall>r\<in>set records. encodable (response r)"
    by (simp_all add: dedupe_Inr)
  have "\<forall>x\<in>set out. encodable (response x)"
  proof
    fix x
    assume "x \<in> set out"
    then obtain r where "r \<in> set records" "response x = response r"
      unfolding out using first_seen_member [OF _ enc] by blast
    with enc show "encodable (response x)" by simp
  qed
  then have "dedupe out = Inr (first_seen {} out)"
    by (rule dedupe_eq)
  then show "dedupe out = Inr out"
    unfolding out by (simp add: first_seen_idem)
next
  show "(\<exists>out. dedupe records = Inr out) \<longleftrightarrow> (\<forall>r\<in>set records. encodable (response r))"
    by (rule dedupe_returns_iff)
qed

theorem dedupe_idempotent_witness:
  "\<exists>out. dedupe
     [\<lparr>prompt = py_str ''a'', response = py_str ''x'', metadata = Map.empty\<rparr>,
      \<lparr>prompt = py_str ''b'', response = py_str ''y'', metadata = Map.empty\<rparr>,
      \<lparr>prompt = py_str ''c'', response = py_str ''x'', metadata = Map.empty\<rparr>] = Inr out
     \<and> dedupe out = Inr out"
proof -
  let ?W = "[\<lparr>prompt = py_str ''a'', response = py_str ''x'', metadata = Map.empty\<rparr>,
      \<lparr>prompt = py_str ''b'', response = py_str ''y'', metadata = Map.empty\<rparr>,
      \<lparr>prompt = py_str ''c'', response = py_str ''x'', metadata = Map.empty\<rparr>]"
  have "\<forall>r\<in>set ?W. encodable (response r)"
    by (simp add: encodable_def py_str_def)
  with dedupe_idempotent [of ?W, THEN conjunct2] obtain out where out: "dedupe ?W = Inr out"
    by blast
  from dedupe_idempotent [of ?W, THEN conjunct1, THEN spec, THEN mp, OF out] out
  show ?thesis
    by (intro exI [of _ out]) simp
qed

section \<open>Properties of the string methods\<close>

text \<open>
  \<open>py_strip\<close> cuts a run of whitespace from each end of the string and nothing else: what
  is left is empty, or begins and ends with a character that is not whitespace.
\<close>

lemma py_rstrip_append: "py_rstrip x @ rev (takeWhile py_isspace (rev x)) = x"
proof -
  have "rev (takeWhile py_isspace (rev x) @ dropWhile py_isspace (rev x)) = x"
    by simp
  then show ?thesis
    by (simp add: py_rstrip_def del: takeWhile_dropWhile_id)
qed

lemma py_rstrip_idem: "py_rstrip (py_rstrip x) = py_rstrip x"
  by (simp add: py_rstrip_def)

lemma py_rstrip_nonempty: "py_rstrip x \<noteq> [] \<Longrightarrow> x \<noteq> []"
  by (cases x) (simp_all add: py_rstrip_def)

lemma hd_py_rstrip: "py_rstrip x \<noteq> [] \<Longrightarrow> hd (py_rstrip x) = hd x"
  using py_rstrip_append [of x] by (metis hd_append2)

lemma last_py_rstrip: "py_rstrip x \<noteq> [] \<Longrightarrow> \<not> py_isspace (last (py_rstrip x))"
proof -
  assume "py_rstrip x \<noteq> []"
  then have ne: "dropWhile py_isspace (rev x) \<noteq> []"
    by (simp add: py_rstrip_def)
  then have "\<not> py_isspace (hd (dropWhile py_isspace (rev x)))"
    by (rule hd_dropWhile)
  with ne show ?thesis
    by (simp add: py_rstrip_def last_rev)
qed

lemma py_startswith_single: "py_startswith s [c] \<longleftrightarrow> s \<noteq> [] \<and> hd s = c"
  by (cases s) (simp_all add: py_startswith_def)

lemma py_strip_spec:
  "\<exists>pre suf. s = pre @ py_strip s @ suf \<and> list_all py_isspace pre \<and> list_all py_isspace suf
     \<and> (py_strip s = [] \<or> \<not> py_isspace (hd (py_strip s)) \<and> \<not> py_isspace (last (py_strip s)))"
proof -
  let ?pre = "takeWhile py_isspace s"
  let ?mid = "dropWhile py_isspace s"
  let ?suf = "rev (takeWhile py_isspace (rev ?mid))"
  have strip: "py_strip s = py_rstrip ?mid"
    by (simp add: py_strip_def py_lstrip_def)
  have "s = ?pre @ ?mid" by simp
  also have "?mid = py_strip s @ ?suf"
    unfolding strip by (rule py_rstrip_append [symmetric])
  finally have "s = ?pre @ py_strip s @ ?suf" .
  moreover have "list_all py_isspace ?pre"
    by (simp add: list_all_iff) (metis set_takeWhileD)
  moreover have "list_all py_isspace ?suf"
    by (simp add: list_all_iff) (metis set_takeWhileD)
  moreover have "\<not> py_isspace (hd (py_strip s)) \<and> \<not> py_isspace (last (py_strip s))"
    if ne: "py_strip s \<noteq> []"
  proof
    from ne have "?mid \<noteq> []" unfolding strip by (rule py_rstrip_nonempty)
    then have "\<not> py_isspace (hd ?mid)" by (rule hd_dropWhile)
    with ne show "\<not> py_isspace (hd (py_strip s))"
      unfolding strip by (simp add: hd_py_rstrip)
    from ne show "\<not> py_isspace (last (py_strip s))"
      unfolding strip by (rule last_py_rstrip)
  qed
  ultimately show ?thesis by blast
qed

section \<open>Properties of \<open>to_harmony\<close>\<close>


section \<open>Properties of \<open>iterate_snippets\<close>\<close>

lemma snippet_of_response:
  assumes "snippet_of f = Some rcd"
  shows "response rcd = py_rstrip (py_lstrip (py_lstrip_chars [BOM] (raw_text f))) @ py_str ''\<newline>''"
    and "py_rstrip (py_lstrip (py_lstrip_chars [BOM] (raw_text f))) \<noteq> []"
  using assms
  by (auto simp add: snippet_of_def Let_def py_strip_def py_rstrip_idem split: if_splits)

lemma snippet_of_in_iterate:
  "f \<in> set files \<Longrightarrow> snippet_of f = Some rcd \<Longrightarrow> rcd \<in> set (iterate_snippets files)"
  by (induction files) (auto simp add: iterate_snippets_def split: option.splits)

text \<open>
  Claim C8.  The source removes the leading byte-order marks with \<open>lstrip("\ufeff")\<close>
  before it strips the whitespace, so a mark that stands behind leading whitespace is
  laid bare by \<open>strip()\<close> and stays.  The text \<open>"\ufeff\n\ufeffx"\<close> begins with a
  byte-order mark, and the response of its record is \<open>"\ufeffx\n"\<close>, which starts with
  one.
\<close>

theorem bom_after_whitespace_survives:
  "py_startswith
     (raw_text \<lparr>rel_parts = [py_str ''bom.ahk''], is_file = True,
                raw_text = [BOM, 0x0A, BOM, 0x78]\<rparr>) [BOM]
   \<and> map response
        (iterate_snippets
           [\<lparr>rel_parts = [py_str ''bom.ahk''], is_file = True,
             raw_text = [BOM, 0x0A, BOM, 0x78]\<rparr>])
       = [[BOM, 0x78, 0x0A]]
   \<and> py_startswith [BOM, 0x78, 0x0A] [BOM]"
  by (simp add: py_startswith_def iterate_snippets_def List.map_filter_def snippet_of_def
      py_lstrip_chars_def py_strip_def py_lstrip_def py_rstrip_def py_isspace_def BOM_def
      py_str_def Let_def)

text \<open>
  How far this reaches: the response of a record starts with a byte-order mark exactly
  when the first character after the leading byte-order marks and the whitespace that
  follows them is again U+FEFF.
\<close>

lemma snippet_response_bom:
  assumes "f \<in> set files" and "snippet_of f = Some rcd"
  shows "rcd \<in> set (iterate_snippets files)
     \<and> (py_startswith (response rcd) [BOM]
          \<longleftrightarrow> py_startswith (py_lstrip (py_lstrip_chars [BOM] (raw_text f))) [BOM])"
proof
  from assms show "rcd \<in> set (iterate_snippets files)"
    by (rule snippet_of_in_iterate)
  let ?x = "py_lstrip (py_lstrip_chars [BOM] (raw_text f))"
  from snippet_of_response [OF assms(2)]
  have r: "response rcd = py_rstrip ?x @ py_str ''\<newline>''" and ne: "py_rstrip ?x \<noteq> []"
    by simp_all
  from ne have "?x \<noteq> []" by (rule py_rstrip_nonempty)
  with r ne show "py_startswith (response rcd) [BOM] \<longleftrightarrow> py_startswith ?x [BOM]"
    by (simp add: py_startswith_single hd_py_rstrip)
qed

section \<open>Properties of the float operations\<close>

text \<open>
  What the proofs about \<open>split_records\<close> need of the rounding: it keeps a value that is
  not negative so, it keeps a value from 1 on at 1 or above, it raises a value by at most
  the factor \<open>1 + 2\<^sup>-\<^sup>5\<^sup>3\<close> (or leaves it below 1, for a subnormal result), and it is exact on
  the natural numbers below \<open>2\<^sup>5\<^sup>3\<close>.
\<close>

lemma bitlen_powi_lower:
  assumes "0 < (p::int)"
  shows "(2::rat) powi (bitlen p - 1) \<le> of_int p"
proof -
  from assms have "1 \<le> bitlen p"
    using bitlen_eq_zero_iff [of p] bitlen_nonneg [of p] by linarith
  then have "(2::rat) powi (bitlen p - 1) = of_int (2 ^ nat (bitlen p - 1))"
    by (simp add: power_int_def)
  also have "\<dots> \<le> of_int p"
    using bitlen_bounds [OF assms] by (simp only: of_int_le_iff)
  finally show ?thesis .
qed

lemma bitlen_powi_upper:
  assumes "0 < (p::int)"
  shows "of_int p < (2::rat) powi bitlen p"
proof -
  have "(2::rat) powi bitlen p = of_int (2 ^ nat (bitlen p))"
    using bitlen_nonneg [of p] by (simp add: power_int_def)
  moreover have "(of_int p :: rat) < of_int (2 ^ nat (bitlen p))"
    using bitlen_bounds [OF assms] by (simp only: of_int_less_iff)
  ultimately show ?thesis by simp
qed

lemma floor_log2_bounds:
  assumes "0 < x"
  shows "2 powi floor_log2 x \<le> x" and "x < 2 powi (floor_log2 x + 1)"
proof -
  obtain p q where pq: "quotient_of x = (p, q)"
    by (cases "quotient_of x")
  then have q: "0 < q"
    by (rule quotient_of_denom_pos)
  from pq have x: "x = of_int p / of_int q"
    by (rule quotient_of_div)
  from assms x q have p: "0 < p"
    by (simp add: zero_less_divide_iff)
  let ?d = "bitlen p - bitlen q"
  have "x < 2 powi bitlen p / 2 powi (bitlen q - 1)"
    unfolding x using p q bitlen_powi_upper [OF p] bitlen_powi_lower [OF q]
    by (intro frac_less) simp_all
  also have "\<dots> = 2 powi (bitlen p - (bitlen q - 1))"
    by (simp add: power_int_diff)
  also have "bitlen p - (bitlen q - 1) = ?d + 1"
    by simp
  finally have up: "x < 2 powi (?d + 1)" .
  have "2 powi (bitlen p - 1) / 2 powi bitlen q < x"
    unfolding x using p q bitlen_powi_lower [OF p] bitlen_powi_upper [OF q]
    by (intro frac_less2) simp_all
  moreover have "(2::rat) powi (bitlen p - 1) / 2 powi bitlen q
      = 2 powi (bitlen p - 1 - bitlen q)"
    by (simp add: power_int_diff)
  moreover have "bitlen p - 1 - bitlen q = ?d - 1"
    by simp
  ultimately have low: "2 powi (?d - 1) < x" by simp
  have fl: "floor_log2 x = (if 2 powi ?d \<le> x then ?d else ?d - 1)"
    by (simp add: floor_log2_def pq)
  show "2 powi floor_log2 x \<le> x"
    using low by (simp add: fl)
  show "x < 2 powi (floor_log2 x + 1)"
    using up by (simp add: fl)
qed

lemma round_half_even_upper: "of_int (round_half_even x) \<le> x + 1 / 2"
  unfolding round_half_even_def Let_def by (simp, linarith)

lemma round_half_even_floor: "\<lfloor>x\<rfloor> \<le> round_half_even x"
  by (simp add: round_half_even_def Let_def)

lemma round_half_even_of_int: "round_half_even (of_int k) = k"
  by (simp add: round_half_even_def)

lemma round_half_even_ge:
  assumes "of_int k \<le> x"
  shows "k \<le> round_half_even x"
proof -
  from assms have "k \<le> \<lfloor>x\<rfloor>" by (simp add: le_floor_iff)
  with round_half_even_floor [of x] show ?thesis by linarith
qed


lemma round_nearest_pos:
  "0 < x \<Longrightarrow>
   round_nearest x =
     of_int (round_half_even (x / 2 powi max (floor_log2 x - 52) (- 1074)))
       * 2 powi max (floor_log2 x - 52) (- 1074)"
  by (simp add: round_nearest_def Let_def)

lemma powi_le_one: "k \<le> 0 \<Longrightarrow> (2::rat) powi k \<le> 1"
  using power_int_increasing [of k 0 "2::rat"] by simp

lemma powi_ge_one: "0 \<le> k \<Longrightarrow> 1 \<le> (2::rat) powi k"
  using power_int_increasing [of 0 k "2::rat"] by simp

lemma floor_log2_nonneg:
  assumes "1 \<le> x"
  shows "0 \<le> floor_log2 x"
proof (rule ccontr)
  assume "\<not> 0 \<le> floor_log2 x"
  then have "floor_log2 x + 1 \<le> 0" by simp
  then have "(2::rat) powi (floor_log2 x + 1) \<le> 1" by (rule powi_le_one)
  moreover from assms have "x < 2 powi (floor_log2 x + 1)"
    by (intro floor_log2_bounds) simp
  ultimately show False using assms by simp
qed

lemma round_nearest_nonneg:
  assumes "0 \<le> x"
  shows "0 \<le> round_nearest x"
proof (cases "x = 0")
  case True
  then show ?thesis by (simp add: round_nearest_def)
next
  case False
  with assms have x: "0 < x" by simp
  let ?e = "max (floor_log2 x - 52) (- 1074)"
  from x have "of_int 0 \<le> x / 2 powi ?e" by simp
  then have "0 \<le> round_half_even (x / 2 powi ?e)"
    by (rule round_half_even_ge)
  then show ?thesis
    by (simp add: round_nearest_pos [OF x])
qed

lemma round_nearest_ge_one:
  assumes "1 \<le> x"
  shows "1 \<le> round_nearest x"
proof -
  from assms have x: "0 < x" by simp
  let ?L = "floor_log2 x"
  from assms have L: "0 \<le> ?L" by (rule floor_log2_nonneg)
  then have e: "max (?L - 52) (- 1074) = ?L - 52" by simp
  have "(2::rat) powi ?L / 2 powi (?L - 52) = 2 powi (?L - (?L - 52))"
    by (simp add: power_int_diff)
  then have "(2::rat) powi ?L / 2 powi (?L - 52) = of_int (2 ^ 52)" by simp
  moreover have "2 powi ?L / 2 powi (?L - 52) \<le> x / 2 powi (?L - 52)"
    using floor_log2_bounds(1) [OF x] by (simp add: divide_right_mono)
  ultimately have "of_int (2 ^ 52) \<le> x / 2 powi (?L - 52)" by simp
  then have "2 ^ 52 \<le> round_half_even (x / 2 powi (?L - 52))"
    by (rule round_half_even_ge)
  then have "(of_int (2 ^ 52) :: rat) \<le> of_int (round_half_even (x / 2 powi (?L - 52)))"
    by (simp only: of_int_le_iff)
  then have step: "(of_int (2 ^ 52) :: rat) * 2 powi (?L - 52)
      \<le> of_int (round_half_even (x / 2 powi (?L - 52))) * 2 powi (?L - 52)"
    by (rule mult_right_mono) simp
  from L have "1 \<le> (2::rat) powi ?L" by (rule powi_ge_one)
  also have "(2::rat) powi ?L = of_int (2 ^ 52) * 2 powi (?L - 52)"
    by (simp add: power_int_diff)
  also note step
  finally show ?thesis
    by (simp only: round_nearest_pos [OF x] e)
qed

lemma round_nearest_upper:
  assumes "0 \<le> x"
  shows "round_nearest x \<le> x * (1 + 1 / 2 ^ 53) \<or> round_nearest x < 1"
proof (cases "x = 0")
  case True
  then show ?thesis by (simp add: round_nearest_def)
next
  case False
  with assms have x: "0 < x" by simp
  let ?L = "floor_log2 x"
  let ?e = "max (?L - 52) (- 1074)"
  let ?m = "round_half_even (x / 2 powi ?e)"
  have "of_int ?m * 2 powi ?e \<le> (x / 2 powi ?e + 1 / 2) * 2 powi ?e"
    using round_half_even_upper [of "x / 2 powi ?e"] by (intro mult_right_mono) simp_all
  also have "\<dots> = x + 2 powi ?e / 2"
    by (simp add: algebra_simps)
  finally have rn: "round_nearest x \<le> x + 2 powi ?e / 2"
    by (simp only: round_nearest_pos [OF x])
  show ?thesis
  proof (cases "- 1074 \<le> ?L - 52")
    case True
    then have e: "?e = ?L - 52" by simp
    have "(2::rat) powi (?L - 52) = 2 powi ?L / 2 ^ 52"
      by (simp add: power_int_diff)
    then have "(2::rat) powi ?e / 2 = 2 powi ?L / 2 ^ 53"
      by (simp add: e)
    also have "\<dots> \<le> x / 2 ^ 53"
      using floor_log2_bounds(1) [OF x] by (simp add: divide_right_mono)
    finally have "x + 2 powi ?e / 2 \<le> x * (1 + 1 / 2 ^ 53)"
      by (simp add: algebra_simps)
    with rn show ?thesis by simp
  next
    case False
    then have e: "?e = - 1074" and "?L + 1 \<le> - 2" by simp_all
    then have "(2::rat) powi (?L + 1) \<le> 2 powi (- 2)"
      by (intro power_int_increasing) simp_all
    with floor_log2_bounds(2) [OF x] have "x < 1 / 4" by simp
    moreover have "(2::rat) powi (- 1074) \<le> 2 powi (- 2)"
      by (intro power_int_increasing) simp_all
    then have "(2::rat) powi ?e / 2 \<le> 1 / 8" by (simp add: e)
    ultimately have "x + 2 powi ?e / 2 < 1" by simp
    with rn show ?thesis by simp
  qed
qed

lemma round_nearest_of_nat:
  assumes "n < 2 ^ 53"
  shows "round_nearest (of_nat n) = of_nat n"
proof (cases "n = 0")
  case True
  then show ?thesis by (simp add: round_nearest_def)
next
  case False
  let ?x = "of_nat n :: rat"
  from False have x: "0 < ?x" and x1: "1 \<le> ?x" by simp_all
  let ?L = "floor_log2 ?x"
  from x1 have L0: "0 \<le> ?L" by (rule floor_log2_nonneg)
  have L52: "?L \<le> 52"
  proof (rule ccontr)
    assume "\<not> ?L \<le> 52"
    then have "(2::rat) powi 53 \<le> 2 powi ?L"
      by (intro power_int_increasing) simp_all
    with floor_log2_bounds(1) [OF x] have "(2::rat) ^ 53 \<le> of_nat n" by simp
    then have "(of_nat (2 ^ 53) :: rat) \<le> of_nat n" by simp
    then have "2 ^ 53 \<le> n" by (simp only: of_nat_le_iff)
    with assms show False by simp
  qed
  from L0 have e: "max (?L - 52) (- 1074) = ?L - 52" by simp
  from L52 have "(2::rat) powi (?L - 52) = 1 / 2 ^ nat (52 - ?L)"
    by (simp add: power_int_def field_simps)
  then have pe: "?x / 2 powi (?L - 52) = of_int (int n * 2 ^ nat (52 - ?L))"
    and unscale: "of_int (int n * 2 ^ nat (52 - ?L)) * (2::rat) powi (?L - 52) = ?x"
    by simp_all
  show ?thesis
    by (simp only: round_nearest_pos [OF x] e pe round_half_even_of_int unscale)
qed


text \<open>
  Two evaluations: \<open>0.7 + 0.3\<close> is \<open>1.0\<close> (the exact sum of the two doubles lies below 1
  and is rounded up), and \<open>int(100 * 0.1)\<close> is 10.
\<close>

lemma float_sum_rounds_to_one:
  "float_add (round_to_double (7 / 10)) (round_to_double (3 / 10)) = Finite 1"
  by code_simp

lemma basic_split_counts:
  "int_of_product 100 (round_to_double (1 / 10)) = Inr 10"
  by code_simp

lemma in_unit_interval_iff:
  "in_unit_interval v \<longleftrightarrow> (\<exists>x. v = Finite x \<and> 0 \<le> x \<and> x < 1)"
  by (cases v) (simp_all add: in_unit_interval_def)

lemma not_le_neg_power:
  assumes "0 \<le> (r::rat)"
  shows "\<not> r \<le> - (2 ^ k)"
proof -
  have "(0::rat) < 2 ^ k" by simp
  with assms show ?thesis by linarith
qed

lemma round_to_double_small:
  assumes "0 \<le> x" and "x < 2 ^ 53"
  shows "\<exists>r. round_to_double x = Finite r \<and> 0 \<le> r
           \<and> (r \<le> x * (1 + 1 / 2 ^ 53) \<or> r < 1)"
proof -
  let ?r = "round_nearest x"
  from assms(1) have r0: "0 \<le> ?r" by (rule round_nearest_nonneg)
  from assms(1) have up: "?r \<le> x * (1 + 1 / 2 ^ 53) \<or> ?r < 1"
    by (rule round_nearest_upper)
  have "x * (1 + 1 / 2 ^ 53) < 2 ^ 53 * 2"
    using assms by (intro mult_strict_mono) simp_all
  with up have "?r < 2 ^ 54" by auto
  also have "(2::rat) ^ 54 \<le> 2 ^ 1024" by (rule power_increasing) simp_all
  finally have "?r < 2 ^ 1024" .
  moreover from r0 have "\<not> ?r \<le> - (2 ^ 1024)"
    by (rule not_le_neg_power)
  ultimately have "round_to_double x = Finite ?r"
    by (simp add: round_to_double_def Let_def)
  with r0 up show ?thesis by blast
qed

lemma round_to_double_ge_one:
  assumes "1 \<le> x"
  shows "float_le (Finite 1) (round_to_double x)"
proof -
  from assms have "1 \<le> round_nearest x" by (rule round_nearest_ge_one)
  moreover then have "\<not> round_nearest x \<le> - (2 ^ 1024)"
    by (intro not_le_neg_power) simp
  ultimately show ?thesis
    by (simp add: round_to_double_def Let_def)
qed

lemma float_of_int_nat:
  assumes "n < 2 ^ 53"
  shows "float_of_int (int n) = Inr (Finite (of_nat n))"
proof -
  from assms have rn: "round_nearest (of_nat n) = (of_nat n :: rat)"
    by (rule round_nearest_of_nat)
  from assms have "(of_nat n :: rat) < of_nat (2 ^ 53)"
    by (simp only: of_nat_less_iff)
  then have "(of_nat n :: rat) < 2 ^ 53" by simp
  also have "(2::rat) ^ 53 \<le> 2 ^ 1024" by (rule power_increasing) simp_all
  finally have "(of_nat n :: rat) < 2 ^ 1024" .
  moreover have "\<not> (of_nat n :: rat) \<le> - (2 ^ 1024)"
    by (intro not_le_neg_power) simp
  ultimately have "round_to_double (of_nat n) = Finite (of_nat n)"
    by (simp add: round_to_double_def Let_def rn)
  then show ?thesis
    by (simp add: float_of_int_def)
qed

lemma int_of_product_bounds:
  assumes "n < 2 ^ 53" and "0 \<le> x" and "x < 1"
  shows "\<exists>c. int_of_product (int n) (Finite x) = Inr c \<and> 0 \<le> c
           \<and> of_int c \<le> of_nat n * x * (1 + 1 / 2 ^ 53)"
proof -
  let ?z = "of_nat n * x"
  from assms(2) have z0: "0 \<le> ?z" by simp
  from assms(1) have "(of_nat n :: rat) < of_nat (2 ^ 53)"
    by (simp only: of_nat_less_iff)
  then have n53: "(of_nat n :: rat) < 2 ^ 53" by simp
  have "?z \<le> of_nat n * 1"
    using assms(3) by (intro mult_left_mono) simp_all
  with n53 have "?z < 2 ^ 53" by simp
  with z0 obtain r where r: "round_to_double ?z = Finite r" "0 \<le> r"
    "r \<le> ?z * (1 + 1 / 2 ^ 53) \<or> r < 1"
    using round_to_double_small by blast
  from r(1,2) have eq: "int_of_product (int n) (Finite x) = Inr \<lfloor>r\<rfloor>"
    by (simp add: int_of_product_def float_of_int_nat [OF assms(1)])
  from r(2) have f0: "0 \<le> \<lfloor>r\<rfloor>" by simp
  have "of_int \<lfloor>r\<rfloor> \<le> ?z * (1 + 1 / 2 ^ 53)"
  proof (cases "r < 1")
    case True
    with r(2) have "\<lfloor>r\<rfloor> = 0" by (simp add: floor_eq_iff)
    with z0 show ?thesis by simp
  next
    case False
    with r(3) have "r \<le> ?z * (1 + 1 / 2 ^ 53)" by simp
    moreover have "of_int \<lfloor>r\<rfloor> \<le> r" by simp
    ultimately show ?thesis by (rule order_trans [rotated])
  qed
  with eq f0 show ?thesis by blast
qed

lemma counts_fit:
  assumes n: "n < 2 ^ 53"
    and c: "of_int vc \<le> of_nat n * x * (1 + 1 / 2 ^ 53)"
           "of_int tc \<le> of_nat n * y * (1 + 1 / 2 ^ 53)"
    and xy: "x + y < (1::rat)"
  shows "vc + tc \<le> int n"
proof (cases "n = 0")
  case True
  with c have "(of_int (vc + tc) :: rat) \<le> 0" by simp
  then have "vc + tc \<le> 0" by (simp only: of_int_le_0_iff)
  with True show ?thesis by simp
next
  case False
  from c have "(of_int (vc + tc) :: rat) \<le> of_nat n * (x + y) * (1 + 1 / 2 ^ 53)"
    by (simp add: algebra_simps)
  also have "\<dots> < of_nat n * 1 * (1 + 1 / 2 ^ 53)"
    using False xy by (intro mult_strict_right_mono mult_strict_left_mono) simp_all
  also have "\<dots> = of_nat n + of_nat n / 2 ^ 53"
    by (simp add: algebra_simps)
  also have "\<dots> < of_nat n + 1"
  proof -
    from n have "(of_nat n :: rat) < of_nat (2 ^ 53)"
      by (simp only: of_nat_less_iff)
    then have "(of_nat n :: rat) / 2 ^ 53 < 1" by simp
    then show ?thesis by simp
  qed
  finally have "(of_int (vc + tc) :: rat) < of_int (int n + 1)" by simp
  then have "vc + tc < int n + 1" by (simp only: of_int_less_iff)
  then show ?thesis by simp
qed


section \<open>Properties of \<open>split_records\<close>\<close>

subsection \<open>Slices and the shuffle\<close>

lemma slice_index_in_range: "0 \<le> i \<Longrightarrow> i \<le> int n \<Longrightarrow> slice_index n i = nat i"
  by (auto simp add: slice_index_def)

lemma py_slice_prefix:
  "0 \<le> a \<Longrightarrow> a \<le> int (length xs) \<Longrightarrow> py_slice xs None (Some a) = take (nat a) xs"
  by (simp add: py_slice_def slice_index_in_range)

lemma py_slice_middle:
  "0 \<le> a \<Longrightarrow> 0 \<le> b \<Longrightarrow> a + b \<le> int (length xs) \<Longrightarrow>
   py_slice xs (Some a) (Some (a + b)) = take (nat b) (drop (nat a) xs)"
  by (simp add: py_slice_def slice_index_in_range nat_add_distrib)

lemma py_slice_suffix:
  "0 \<le> a \<Longrightarrow> a \<le> int (length xs) \<Longrightarrow> py_slice xs (Some a) None = drop (nat a) xs"
  by (simp add: py_slice_def slice_index_in_range)

lemma three_slices:
  assumes "0 \<le> a" and "0 \<le> b" and "a + b \<le> int (length xs)"
  shows "py_slice xs None (Some a) @ py_slice xs (Some a) (Some (a + b))
           @ py_slice xs (Some (a + b)) None = xs"
proof -
  from assms have "py_slice xs None (Some a) = take (nat a) xs"
    by (intro py_slice_prefix) simp_all
  moreover from assms
  have "py_slice xs (Some a) (Some (a + b)) = take (nat b) (drop (nat a) xs)"
    by (rule py_slice_middle)
  moreover from assms have "py_slice xs (Some (a + b)) None = drop (nat b) (drop (nat a) xs)"
    by (simp add: py_slice_suffix nat_add_distrib add.commute)
  moreover have "take (nat b) (drop (nat a) xs) @ drop (nat b) (drop (nat a) xs)
      = drop (nat a) xs"
    by (rule append_take_drop_id)
  ultimately show ?thesis
    by (simp only: append_take_drop_id)
qed

lemma length_shuffle_from: "length (shuffle_from G k s x) = length x"
  by (induction k arbitrary: s x) (simp_all add: split_def Let_def)

lemma length_shuffle: "length (shuffle G s x) = length x"
  by (simp add: shuffle_def length_shuffle_from)

lemma mset_shuffle_from:
  assumes "rng_ok G"
  shows "k < length x \<Longrightarrow> mset (shuffle_from G k s x) = mset x"
proof (induction k arbitrary: s x)
  case 0
  show ?case by simp
next
  case (Suc k)
  obtain j s' where draw: "randbelow G s (Suc k + 1) = (j, s')"
    by (cases "randbelow G s (Suc k + 1)")
  from assms have "fst (randbelow G s (Suc k + 1)) < Suc k + 1"
    unfolding rng_ok_def by simp
  with draw Suc.prems have j: "j < length x" by simp
  let ?y = "x[Suc k := x ! j, j := x ! Suc k]"
  from Suc.prems j have swap: "mset ?y = mset x"
    by (simp add: mset_swap)
  from Suc.prems have "k < length ?y" by simp
  then have "mset (shuffle_from G k s' ?y) = mset ?y"
    by (rule Suc.IH)
  with swap draw show ?case by simp
qed

lemma mset_shuffle: "rng_ok G \<Longrightarrow> mset (shuffle G s x) = mset x"
  by (cases x) (simp_all add: shuffle_def mset_shuffle_from)

subsection \<open>The counts\<close>

text \<open>
  For a valid pair of ratios, the exact sum of the two ratios is below 1, since rounding
  keeps a sum from 1 on at 1 or above.  The two truncated products then add up to at most
  the number of records, so \<open>train_count\<close> is not negative and the three slices are the
  consecutive parts of the shuffled list.  The length of the list is taken below
  \<open>2\<^sup>5\<^sup>3\<close>, where its conversion to a float is exact; a list of that many references does
  not fit into the address space of a 64-bit machine.
\<close>

lemma valid_ratios_cases:
  assumes "valid_ratios v t"
  obtains x y where "v = Finite x" and "t = Finite y" and "0 \<le> x" and "x < 1"
    and "0 \<le> y" and "y < 1" and "x + y < 1"
    and "\<not> float_le (Finite 1) (float_add v t)"
proof -
  from assms obtain x y where v: "v = Finite x" "0 \<le> x" "x < 1"
    and t: "t = Finite y" "0 \<le> y" "y < 1"
    by (auto simp add: valid_ratios_def in_unit_interval_iff)
  from assms v t have lt: "float_lt (round_to_double (x + y)) (Finite 1)"
    by (simp add: valid_ratios_def)
  have "x + y < 1"
  proof (rule ccontr)
    assume "\<not> x + y < 1"
    then have "float_le (Finite 1) (round_to_double (x + y))"
      by (intro round_to_double_ge_one) simp
    with lt show False
      by (cases "round_to_double (x + y)") simp_all
  qed
  moreover from lt have "\<not> float_le (Finite 1) (float_add v t)"
    unfolding v t by (cases "round_to_double (x + y)") simp_all
  ultimately show ?thesis using v t that by blast
qed

lemma split_records_valid:
  assumes "valid_ratios v t" and "length records < 2 ^ 53"
  shows "\<exists>train val test.
           split_records G env records v t seed = Inr (train, val, test)
           \<and> train @ val @ test = shuffle G (Random G env (Some seed)) records"
proof -
  let ?sh = "shuffle G (Random G env (Some seed)) records"
  let ?n = "length records"
  from assms(1) obtain x y where v: "v = Finite x" and t: "t = Finite y"
    and x: "0 \<le> x" "x < 1" and y: "0 \<le> y" "y < 1" and xy: "x + y < 1"
    and ok: "\<not> float_le (Finite 1) (float_add v t)"
    by (rule valid_ratios_cases)
  from assms(2) x obtain vc where vc: "int_of_product (int ?n) (Finite x) = Inr vc"
    "0 \<le> vc" "of_int vc \<le> of_nat ?n * x * (1 + 1 / 2 ^ 53)"
    using int_of_product_bounds by blast
  from assms(2) y obtain tc where tc: "int_of_product (int ?n) (Finite y) = Inr tc"
    "0 \<le> tc" "of_int tc \<le> of_nat ?n * y * (1 + 1 / 2 ^ 53)"
    using int_of_product_bounds by blast
  from assms(2) vc(3) tc(3) xy have fit: "vc + tc \<le> int ?n"
    by (rule counts_fit)
  let ?a = "int ?n - vc - tc"
  have len: "length ?sh = ?n" by (rule length_shuffle)
  from fit vc(2) have "0 \<le> ?a" and "0 \<le> vc" and "?a + vc \<le> int (length ?sh)"
    using tc(2) by (simp_all add: len)
  then have cat: "py_slice ?sh None (Some ?a) @ py_slice ?sh (Some ?a) (Some (?a + vc))
           @ py_slice ?sh (Some (?a + vc)) None = ?sh"
    by (rule three_slices)
  from x y ok vc(1) tc(1)
  have "split_records G env records v t seed =
          Inr (py_slice ?sh None (Some ?a), py_slice ?sh (Some ?a) (Some (?a + vc)),
               py_slice ?sh (Some (?a + vc)) None)"
    unfolding v t by (simp add: split_records_def Let_def len)
  with cat show ?thesis by blast
qed


lemma valid_ratios_exactI:
  assumes "0 \<le> x" and "0 \<le> y" and "(x + y) * (1 + 1 / 2 ^ 53) < 1"
  shows "valid_ratios (Finite x) (Finite y)"
proof -
  have "(x + y) * 1 \<le> (x + y) * (1 + 1 / 2 ^ 53)"
    using assms(1,2) by (intro mult_left_mono) simp_all
  with assms(3) have xy: "x + y < 1" by simp
  with assms(1,2) have "x < 1" and "y < 1" by simp_all
  moreover from assms(1,2) xy obtain r where "round_to_double (x + y) = Finite r"
    and "r \<le> (x + y) * (1 + 1 / 2 ^ 53) \<or> r < 1"
    using round_to_double_small [of "x + y"] by auto
  ultimately show ?thesis
    using assms by (auto simp add: valid_ratios_def in_unit_interval_def)
qed

lemma round_to_double_not_NaN: "round_to_double z \<noteq> NaN"
  by (simp add: round_to_double_def Let_def)

lemma int_of_product_no_ValueError: "int_of_product n (Finite x) \<noteq> Inl (ValueError msg)"
proof (cases "round_to_double (of_int n)")
  case (Finite r)
  then show ?thesis
    using round_to_double_not_NaN [of "r * x"]
    by (cases "round_to_double (r * x)")
      (simp_all add: int_of_product_def float_of_int_def)
qed (simp_all add: int_of_product_def float_of_int_def)

text \<open>
  Claim C1.  For every list of records (of a length below \<open>2\<^sup>5\<^sup>3\<close>) and every valid pair
  of ratios, \<open>split_records\<close> returns three lists whose lengths add up to the length of
  the input.
\<close>

theorem split_records_lengths:
  assumes "valid_ratios val_ratio test_ratio" and "length records < 2 ^ 53"
  shows "\<exists>train val test.
           split_records G env records val_ratio test_ratio seed = Inr (train, val, test)
           \<and> length train + length val + length test = length records"
proof -
  from assms obtain train val test
    where res: "split_records G env records val_ratio test_ratio seed = Inr (train, val, test)"
      and cat: "train @ val @ test = shuffle G (Random G env (Some seed)) records"
    using split_records_valid by blast
  from cat have "length (train @ val @ test) = length records"
    by (simp only: length_shuffle)
  with res show ?thesis by auto
qed

theorem split_records_lengths_witness:
  "\<exists>train val test.
     split_records 
      \<lparr>seed_int = (\<lambda>a. nat \<bar>a\<bar>), randbelow = (\<lambda>s n. ((s * 7 + 3) mod n, s + 1))\<rparr> \<lparr>os_urandom = 0\<rparr>
      [\<lparr>prompt = py_str ''p0'', response = py_str ''r0'', metadata = Map.empty\<rparr>,
       \<lparr>prompt = py_str ''p1'', response = py_str ''r1'', metadata = Map.empty\<rparr>,
       \<lparr>prompt = py_str ''p2'', response = py_str ''r2'', metadata = Map.empty\<rparr>,
       \<lparr>prompt = py_str ''p3'', response = py_str ''r3'', metadata = Map.empty\<rparr>]
      (Finite (1 / 4)) (Finite (1 / 4)) 42 = Inr (train, val, test)
     \<and> length train + length val + length test = 4"
proof -
  have v: "valid_ratios (Finite (1 / 4)) (Finite (1 / 4))"
    by (rule valid_ratios_exactI) simp_all
  let ?W = "[\<lparr>prompt = py_str ''p0'', response = py_str ''r0'', metadata = Map.empty\<rparr>,
       \<lparr>prompt = py_str ''p1'', response = py_str ''r1'', metadata = Map.empty\<rparr>,
       \<lparr>prompt = py_str ''p2'', response = py_str ''r2'', metadata = Map.empty\<rparr>,
       \<lparr>prompt = py_str ''p3'', response = py_str ''r3'', metadata = Map.empty\<rparr>]"
  have l: "length ?W < 2 ^ 53"
    by simp
  have n: "length ?W = 4"
    by simp
  from split_records_lengths [OF v l, of "\<lparr>seed_int = (\<lambda>a. nat \<bar>a\<bar>), randbelow = (\<lambda>s n. ((s * 7 + 3) mod n, s + 1))\<rparr>" "\<lparr>os_urandom = 0\<rparr>" 42]
  show ?thesis
    unfolding n .
qed

text \<open>
  Claim C3.  The result of \<open>split_records\<close> is a function of its arguments alone: the
  generator is seeded from \<open>seed\<close>, so two runs in different environments (a different
  entropy of the operating system) with the same records, ratios and seed give the same
  error or the same three lists.
\<close>

theorem split_records_deterministic:
  "split_records G env records val_ratio test_ratio seed
     = split_records G env' records val_ratio test_ratio seed"
  by (simp add: split_records_def Random_def)

lemma split_records_bad_val:
  "\<not> in_unit_interval v \<Longrightarrow>
   split_records G env records v t seed = Inl (ValueError ''val-ratio must be in [0, 1)'')"
  by (simp add: split_records_def in_unit_interval_def)

lemma split_records_bad_test:
  "in_unit_interval v \<Longrightarrow> \<not> in_unit_interval t \<Longrightarrow>
   split_records G env records v t seed = Inl (ValueError ''test-ratio must be in [0, 1)'')"
  by (simp add: split_records_def in_unit_interval_def)

lemma split_records_bad_sum:
  "in_unit_interval v \<Longrightarrow> in_unit_interval t \<Longrightarrow> float_le (Finite 1) (float_add v t) \<Longrightarrow>
   split_records G env records v t seed
     = Inl (ValueError ''val-ratio + test-ratio must be less than 1'')"
  by (simp add: split_records_def in_unit_interval_def)

lemma split_records_passed:
  assumes "in_unit_interval v" and "in_unit_interval t"
    and "\<not> float_le (Finite 1) (float_add v t)"
  shows "split_records G env records v t seed =
     (let rng = Random G env (Some seed);
          shuffled = shuffle G rng records;
          total = int (length shuffled)
      in case int_of_product total v of
           Inl e \<Rightarrow> Inl e
         | Inr val_count \<Rightarrow>
             (case int_of_product total t of
                Inl e \<Rightarrow> Inl e
              | Inr test_count \<Rightarrow>
                  (let train_count = total - val_count - test_count;
                       train = py_slice shuffled None (Some train_count);
                       val = py_slice shuffled (Some train_count)
                               (Some (train_count + val_count));
                       test = py_slice shuffled (Some (train_count + val_count)) None
                   in Inr (train, val, test))))"
  using assms by (simp add: split_records_def in_unit_interval_def)

lemma split_records_no_ValueError:
  assumes "in_unit_interval v" and "in_unit_interval t"
    and "\<not> float_le (Finite 1) (float_add v t)"
  shows "split_records G env records v t seed \<noteq> Inl (ValueError msg)"
proof -
  from assms(1,2) obtain x y where v: "v = Finite x" and t: "t = Finite y"
    by (auto simp add: in_unit_interval_iff)
  let ?n = "int (length (shuffle G (Random G env (Some seed)) records))"
  have nv: "int_of_product ?n v \<noteq> Inl (ValueError msg)"
    unfolding v by (rule int_of_product_no_ValueError)
  have nt: "int_of_product ?n t \<noteq> Inl (ValueError msg)"
    unfolding t by (rule int_of_product_no_ValueError)
  show ?thesis
  proof (cases "int_of_product ?n v")
    case (Inl e)
    with nv show ?thesis
      by (simp add: split_records_passed [OF assms] Let_def)
  next
    case vc: (Inr val_count)
    show ?thesis
    proof (cases "int_of_product ?n t")
      case (Inl e)
      with vc nt show ?thesis
        by (simp add: split_records_passed [OF assms] Let_def)
    next
      case (Inr test_count)
      with vc show ?thesis
        by (simp add: split_records_passed [OF assms] Let_def)
    qed
  qed
qed

text \<open>
  Claim C4.  \<open>split_records\<close> raises \<open>ValueError\<close> exactly when \<open>val_ratio\<close> is outside
  \<open>[0, 1)\<close>, or \<open>test_ratio\<close> is, or their float sum is at least 1 (a NaN or an infinity
  is outside the interval).  Whether and with which message it raises depends on the
  two ratios only, not on the records, the generator or the seed: it raises before it
  shuffles.  For every other pair of ratios it returns three lists.
\<close>

theorem split_records_raises_iff:
  "((\<exists>msg. split_records G env records val_ratio test_ratio seed = Inl (ValueError msg))
      \<longleftrightarrow> \<not> in_unit_interval val_ratio \<or> \<not> in_unit_interval test_ratio
            \<or> float_le (Finite 1) (float_add val_ratio test_ratio))
   \<and> (\<forall>msg. split_records G env records val_ratio test_ratio seed = Inl (ValueError msg)
        \<longrightarrow> split_records G' env' records' val_ratio test_ratio seed' = Inl (ValueError msg))
   \<and> (length records < 2 ^ 53 \<longrightarrow> in_unit_interval val_ratio \<longrightarrow> in_unit_interval test_ratio
        \<longrightarrow> \<not> float_le (Finite 1) (float_add val_ratio test_ratio)
        \<longrightarrow> (\<exists>train val test.
              split_records G env records val_ratio test_ratio seed = Inr (train, val, test)))"
proof (intro conjI)
  let ?bad = "\<not> in_unit_interval val_ratio \<or> \<not> in_unit_interval test_ratio
            \<or> float_le (Finite 1) (float_add val_ratio test_ratio)"
  have raised: "\<exists>msg. split_records G env records val_ratio test_ratio seed = Inl (ValueError msg)
      \<and> split_records G' env' records' val_ratio test_ratio seed' = Inl (ValueError msg)"
    if ?bad
  proof (cases "in_unit_interval val_ratio")
    case False
    then show ?thesis by (simp add: split_records_bad_val)
  next
    case v: True
    show ?thesis
    proof (cases "in_unit_interval test_ratio")
      case False
      with v show ?thesis by (simp add: split_records_bad_test)
    next
      case True
      with v that show ?thesis by (simp add: split_records_bad_sum)
    qed
  qed
  have passed: "split_records G env records val_ratio test_ratio seed \<noteq> Inl (ValueError msg)"
    if "\<not> ?bad" for msg
    using that by (intro split_records_no_ValueError) simp_all
  show "(\<exists>msg. split_records G env records val_ratio test_ratio seed = Inl (ValueError msg))
      \<longleftrightarrow> ?bad"
    using raised passed by blast
  show "\<forall>msg. split_records G env records val_ratio test_ratio seed = Inl (ValueError msg)
        \<longrightarrow> split_records G' env' records' val_ratio test_ratio seed' = Inl (ValueError msg)"
  proof (intro allI impI)
    fix msg
    assume r: "split_records G env records val_ratio test_ratio seed = Inl (ValueError msg)"
    with passed have ?bad by blast
    with raised r
    show "split_records G' env' records' val_ratio test_ratio seed' = Inl (ValueError msg)"
      by force
  qed
  show "length records < 2 ^ 53 \<longrightarrow> in_unit_interval val_ratio \<longrightarrow> in_unit_interval test_ratio
        \<longrightarrow> \<not> float_le (Finite 1) (float_add val_ratio test_ratio)
        \<longrightarrow> (\<exists>train val test.
              split_records G env records val_ratio test_ratio seed = Inr (train, val, test))"
  proof (intro impI)
    assume len: "length records < 2 ^ 53" and v: "in_unit_interval val_ratio"
      and t: "in_unit_interval test_ratio"
      and s: "\<not> float_le (Finite 1) (float_add val_ratio test_ratio)"
    from v t obtain x y where xy: "val_ratio = Finite x" "0 \<le> x" "x < 1"
      "test_ratio = Finite y" "0 \<le> y" "y < 1"
      by (auto simp add: in_unit_interval_iff)
    then obtain r where "round_to_double (x + y) = Finite r"
      using round_to_double_small [of "x + y"] by auto
    with xy v t s have "valid_ratios val_ratio test_ratio"
      by (simp add: valid_ratios_def)
    with len show "\<exists>train val test.
        split_records G env records val_ratio test_ratio seed = Inr (train, val, test)"
      using split_records_valid by blast
  qed
qed

theorem split_records_raises_iff_witness:
  "(\<exists>msg. split_records 
      \<lparr>seed_int = (\<lambda>a. nat \<bar>a\<bar>), randbelow = (\<lambda>s n. ((s * 7 + 3) mod n, s + 1))\<rparr> \<lparr>os_urandom = 0\<rparr>
      [\<lparr>prompt = py_str ''p0'', response = py_str ''r0'', metadata = Map.empty\<rparr>,
       \<lparr>prompt = py_str ''p1'', response = py_str ''r1'', metadata = Map.empty\<rparr>,
       \<lparr>prompt = py_str ''p2'', response = py_str ''r2'', metadata = Map.empty\<rparr>,
       \<lparr>prompt = py_str ''p3'', response = py_str ''r3'', metadata = Map.empty\<rparr>]
      (Finite (3 / 2)) (Finite (1 / 8)) 42 = Inl (ValueError msg))
   \<and> (\<exists>train val test. split_records 
      \<lparr>seed_int = (\<lambda>a. nat \<bar>a\<bar>), randbelow = (\<lambda>s n. ((s * 7 + 3) mod n, s + 1))\<rparr> \<lparr>os_urandom = 0\<rparr>
      [\<lparr>prompt = py_str ''p0'', response = py_str ''r0'', metadata = Map.empty\<rparr>,
       \<lparr>prompt = py_str ''p1'', response = py_str ''r1'', metadata = Map.empty\<rparr>,
       \<lparr>prompt = py_str ''p2'', response = py_str ''r2'', metadata = Map.empty\<rparr>,
       \<lparr>prompt = py_str ''p3'', response = py_str ''r3'', metadata = Map.empty\<rparr>]
      (Finite (1 / 8)) (Finite (1 / 4)) 42 = Inr (train, val, test))"
proof
  let ?G = "
      \<lparr>seed_int = (\<lambda>a. nat \<bar>a\<bar>), randbelow = (\<lambda>s n. ((s * 7 + 3) mod n, s + 1))\<rparr>"
  let ?E = "\<lparr>os_urandom = 0\<rparr>"
  let ?W = "[\<lparr>prompt = py_str ''p0'', response = py_str ''r0'', metadata = Map.empty\<rparr>,
       \<lparr>prompt = py_str ''p1'', response = py_str ''r1'', metadata = Map.empty\<rparr>,
       \<lparr>prompt = py_str ''p2'', response = py_str ''r2'', metadata = Map.empty\<rparr>,
       \<lparr>prompt = py_str ''p3'', response = py_str ''r3'', metadata = Map.empty\<rparr>]"
  note bad = split_records_raises_iff [of ?G ?E ?W "Finite (3 / 2)" "Finite (1 / 8)" 42,
      THEN conjunct1]
  show "\<exists>msg. split_records ?G ?E ?W (Finite (3 / 2)) (Finite (1 / 8)) 42
      = Inl (ValueError msg)"
    unfolding bad by (simp add: in_unit_interval_def)
  note good = split_records_raises_iff [of ?G ?E ?W "Finite (1 / 8)" "Finite (1 / 4)" 42,
      THEN conjunct2, THEN conjunct2, rule_format]
  have "valid_ratios (Finite (1 / 8)) (Finite (1 / 4))"
    by (rule valid_ratios_exactI) simp_all
  then have "\<not> float_le (Finite 1) (float_add (Finite (1 / 8)) (Finite (1 / 4)))"
    by (rule valid_ratios_cases)
  then show "\<exists>train val test. split_records ?G ?E ?W (Finite (1 / 8)) (Finite (1 / 4)) 42
      = Inr (train, val, test)"
    by (intro good) (simp_all add: in_unit_interval_def)
qed

text \<open>
  Claim C6.  For a generator whose draws below \<open>n\<close> are below \<open>n\<close>, the three lists that
  \<open>split_records\<close> returns hold together exactly the input records, each as often as
  the input does.
\<close>

theorem split_records_permutation:
  assumes "valid_ratios val_ratio test_ratio" and "length records < 2 ^ 53" and "rng_ok G"
  shows "\<exists>train val test.
           split_records G env records val_ratio test_ratio seed = Inr (train, val, test)
           \<and> mset train + mset val + mset test = mset records"
proof -
  from assms(1,2) obtain train val test
    where res: "split_records G env records val_ratio test_ratio seed = Inr (train, val, test)"
      and cat: "train @ val @ test = shuffle G (Random G env (Some seed)) records"
    using split_records_valid by blast
  from cat have "mset (train @ val @ test) = mset records"
    by (simp only: mset_shuffle [OF assms(3)])
  with res show ?thesis by (auto simp add: ac_simps)
qed

theorem split_records_permutation_witness:
  "\<exists>train val test.
     split_records 
      \<lparr>seed_int = (\<lambda>a. nat \<bar>a\<bar>), randbelow = (\<lambda>s n. ((s * 7 + 3) mod n, s + 1))\<rparr> \<lparr>os_urandom = 0\<rparr>
      [\<lparr>prompt = py_str ''p0'', response = py_str ''r0'', metadata = Map.empty\<rparr>,
       \<lparr>prompt = py_str ''p1'', response = py_str ''r1'', metadata = Map.empty\<rparr>,
       \<lparr>prompt = py_str ''p2'', response = py_str ''r2'', metadata = Map.empty\<rparr>,
       \<lparr>prompt = py_str ''p3'', response = py_str ''r3'', metadata = Map.empty\<rparr>]
      (Finite (1 / 8)) (Finite (1 / 2)) 2025 = Inr (train, val, test)
     \<and> mset train + mset val + mset test = mset
      [\<lparr>prompt = py_str ''p0'', response = py_str ''r0'', metadata = Map.empty\<rparr>,
       \<lparr>prompt = py_str ''p1'', response = py_str ''r1'', metadata = Map.empty\<rparr>,
       \<lparr>prompt = py_str ''p2'', response = py_str ''r2'', metadata = Map.empty\<rparr>,
       \<lparr>prompt = py_str ''p3'', response = py_str ''r3'', metadata = Map.empty\<rparr>]"
proof -
  have v: "valid_ratios (Finite (1 / 8)) (Finite (1 / 2))"
    by (rule valid_ratios_exactI) simp_all
  have g: "rng_ok 
      \<lparr>seed_int = (\<lambda>a. nat \<bar>a\<bar>), randbelow = (\<lambda>s n. ((s * 7 + 3) mod n, s + 1))\<rparr>"
    by (simp add: rng_ok_def)
  have l: "length [\<lparr>prompt = py_str ''p0'', response = py_str ''r0'', metadata = Map.empty\<rparr>,
       \<lparr>prompt = py_str ''p1'', response = py_str ''r1'', metadata = Map.empty\<rparr>,
       \<lparr>prompt = py_str ''p2'', response = py_str ''r2'', metadata = Map.empty\<rparr>,
       \<lparr>prompt = py_str ''p3'', response = py_str ''r3'', metadata = Map.empty\<rparr>] < 2 ^ 53"
    by simp
  from split_records_permutation [OF v l g]
  show ?thesis .
qed

end
